theory Spec2Isabelle
  imports
    Complex_Main
    "HOL-Library.Word"
    "HOL-Library.Multiset"
    "HOL-Library.Char_ord"
    "HOL-Library.List_Lexorder"
    "HOL-Library.Monad_Syntax"
begin

section \<open>The course table of HashTable.cpp\<close>

text \<open>
  The development embeds the class \<open>HashTable\<close> of \<open>src/HashTable.cpp\<close>: a vector of
  bucket heads (\<open>nodes\<close>), each the first \<open>Node\<close> of a singly linked chain, the member
  functions \<open>hash\<close>, \<open>Insert\<close>, \<open>Search\<close>, \<open>Sort\<close> and \<open>Resize\<close>, and the two
  constructors.

  Machine model (x86-64, LP64 or LLP64): \<open>int\<close> and \<open>unsigned int\<close> are 32 bits,
  \<open>size_t\<close> is 64 bits, \<open>char\<close> is a signed byte. Arithmetic on \<open>int\<close> wraps around
  in two's complement, which is what the compiled program does where the C++ standard
  leaves signed overflow undefined. A conversion from \<open>int\<close> to \<open>size_t\<close> extends
  the sign (\<open>scast\<close>), one from \<open>unsigned int\<close> pads with zeros (\<open>ucast\<close>).
  The C++ library is GNU libstdc++, whose \<open>std::sort\<close> is embedded with the program.
\<close>

subsection \<open>Data\<close>

text \<open>\<open>struct Course\<close> (lines 28-33).\<close>

record Course =
  courseId :: string
  courseTitle :: string
  prerequisites :: "string list"

text \<open>The default constructor \<open>Course()\<close>: two empty strings and an empty vector.\<close>

definition Course_default :: Course where
  "Course_default = \<lparr>courseId = [], courseTitle = [], prerequisites = []\<rparr>"

text \<open>\<open>less_than_key\<close> (lines 36-41): \<open>std::string\<close>'s \<open><\<close>, the lexicographic order
  on the bytes read as unsigned values.\<close>

definition less_than_key :: "Course \<Rightarrow> Course \<Rightarrow> bool" where
  "less_than_key course1 course2 \<longleftrightarrow> courseId course1 < courseId course2"

text \<open>\<open>struct Node\<close> (lines 55-75): a course, the bucket index it was stored under and
  the owning pointer \<open>next\<close> to the next node of the chain (\<open>None\<close> for \<open>nullptr\<close>;
  the selector is \<open>next_node\<close>, since \<open>next\<close> is a keyword).\<close>

datatype Node = Node (course: Course) (key: "32 word") (next_node: "Node option")

definition UINT_MAX :: "32 word" where
  "UINT_MAX = 0xFFFFFFFF"

definition DEFAULT_SIZE :: "32 word" where
  "DEFAULT_SIZE = 179"

text \<open>The three constructors of \<open>Node\<close>.\<close>

definition Node_default :: Node where
  "Node_default = Node Course_default UINT_MAX None"

definition Node_course :: "Course \<Rightarrow> Node" where
  "Node_course aCourse = Node aCourse UINT_MAX None"

definition Node_course_key :: "Course \<Rightarrow> 32 word \<Rightarrow> Node" where
  "Node_course_key aCourse aKey = Node aCourse aKey None"

text \<open>The data members of \<open>HashTable\<close> (lines 77-85). \<open>loadFactor\<close> is a \<open>double\<close> in
  the source; it only ever holds the quotient of two integers below \<open>2^32\<close>, which
  IEEE division rounds correctly and monotonically, so the rounded quotient is at least
  \<open>1.0\<close> exactly when the exact one is. The model keeps the exact quotient.\<close>

record HashTable =
  nodes :: "Node list"
  tableSize :: "32 word"
  loadFactor :: rat
  numEntries :: "32 word"

text \<open>What the model does where the source has undefined behaviour that is not
  arithmetic wrap-around: the remainder by zero in \<open>hash\<close>, and \<open>nodes[key]\<close> outside
  the vector. \<open>OutOfFuel\<close> is not an error of the program: it says that the nesting of
  \<open>Insert\<close> and \<open>Resize\<close> went deeper than the bound given to the model.\<close>

datatype error = DivisionByZero | IndexOutOfRange | OutOfFuel

subsection \<open>Construction\<close>

text \<open>\<open>HashTable::HashTable()\<close> (lines 101-110) and \<open>HashTable::HashTable(unsigned int)\<close>
  (lines 117-126).\<close>

definition HashTable_default :: HashTable where
  "HashTable_default =
     \<lparr>nodes = replicate (unat DEFAULT_SIZE) Node_default, tableSize = DEFAULT_SIZE,
      loadFactor = 0, numEntries = 0\<rparr>"

definition HashTable_size :: "32 word \<Rightarrow> HashTable" where
  "HashTable_size size' =
     \<lparr>nodes = replicate (unat size') Node_default, tableSize = size',
      loadFactor = 0, numEntries = 0\<rparr>"

subsection \<open>The hash function\<close>

text \<open>\<open>HashTable::hash\<close> (lines 162-178). The accumulator \<open>key\<close> is an \<open>int\<close>. One
  round of the loop adds \<open>int(courseId[i])\<close> and squares.\<close>

definition int_of_char :: "char \<Rightarrow> 32 word" where
  "int_of_char c = scast (of_nat (of_char c) :: 8 word)"

definition hash_round :: "char \<Rightarrow> 32 word \<Rightarrow> 32 word" where
  "hash_round c key0 = (let key1 = key0 + int_of_char c in key1 * key1)"

definition hash_key :: "string \<Rightarrow> 32 word" where
  "hash_key cid = fold hash_round cid 0"

text \<open>\<open>hash = key % nodes.size()\<close>: the \<open>int\<close> is converted to \<open>size_t\<close>, the
  remainder is taken on 64 bits without sign and stored in an \<open>unsigned int\<close>.\<close>

definition hash :: "HashTable \<Rightarrow> string \<Rightarrow> error + 32 word" where
  "hash t cid =
     (let key = hash_key cid
      in if length (nodes t) = 0 then Inl DivisionByZero
         else Inr (ucast ((scast key :: 64 word) mod of_nat (length (nodes t)))))"

text \<open>\<open>int key = hash(courseId); ... nodes[key]\<close>: the index given to
  \<open>vector::operator[]\<close> is the \<open>int\<close> converted to \<open>size_t\<close>.\<close>

definition index_of :: "32 word \<Rightarrow> nat" where
  "index_of aKey = unat (scast aKey :: 64 word)"

subsection \<open>Chains\<close>

text \<open>The walk along \<open>next\<close> that \<open>Sort\<close> (lines 243-247) and \<open>Resize\<close> (lines 339-343)
  make from a bucket head, reading the course of every node met, and the test
  \<open>key != UINT_MAX\<close> on the head that guards it.\<close>

fun chain_courses :: "Node \<Rightarrow> Course list" where
  "chain_courses (Node c k None) = [c]"
| "chain_courses (Node c k (Some n)) = c # chain_courses n"

definition bucket_courses :: "Node \<Rightarrow> Course list" where
  "bucket_courses head = (if key head \<noteq> UINT_MAX then chain_courses head else [])"

text \<open>\<open>while (current->next != nullptr) current = current->next;
  current->next = new Node(course, key)\<close> (lines 200-206).\<close>

fun append_node :: "Node \<Rightarrow> Node \<Rightarrow> Node" where
  "append_node (Node c k None) newNode = Node c k (Some newNode)"
| "append_node (Node c k (Some n)) newNode = Node c k (Some (append_node n newNode))"

text \<open>The loop of \<open>Search\<close> (lines 284-291): it looks one node ahead and returns the
  empty course when the chain ends.\<close>

fun search_next :: "Node \<Rightarrow> string \<Rightarrow> Course \<Rightarrow> Course" where
  "search_next (Node c k None) cid blank = blank"
| "search_next (Node c k (Some n)) cid blank =
     (if courseId (course n) = cid then course n else search_next n cid blank)"

subsection \<open>Insert and Resize\<close>

text \<open>Lines 189-207 of \<open>Insert\<close>: the record goes into the bucket head when the head is
  unused, and to the end of the chain otherwise.\<close>

definition place :: "Course \<Rightarrow> HashTable \<Rightarrow> error + HashTable" where
  "place aCourse t =
     (case hash t (courseId aCourse) of
        Inl e \<Rightarrow> Inl e
      | Inr h \<Rightarrow>
          let i = index_of h
          in if length (nodes t) \<le> i then Inl IndexOutOfRange
             else let current = nodes t ! i
                  in if key current = UINT_MAX
                     then Inr (t\<lparr>nodes := (nodes t)[i := Node_course_key aCourse h]\<rparr>)
                     else Inr (t\<lparr>nodes :=
                            (nodes t)[i := append_node current (Node_course_key aCourse h)]\<rparr>))"

text \<open>Lines 208-212: \<open>numEntries += 1; loadFactor = double(numEntries) / tableSize\<close>.
  (With \<open>tableSize = 0\<close> the source divides by \<open>0.0\<close>; no table built by the
  constructors and \<open>Insert\<close> gets there, since \<open>hash\<close> fails first.)\<close>

definition count_entry :: "HashTable \<Rightarrow> HashTable" where
  "count_entry t =
     (let t1 = t\<lparr>numEntries := numEntries t + 1\<rparr>
      in t1\<lparr>loadFactor := of_int (sint (numEntries t1)) / of_nat (unat (tableSize t1))\<rparr>)"

text \<open>The \<open>for\<close> loop of \<open>Resize\<close> (lines 312-320). Its \<open>continue\<close> goes on with the
  next divisor \<open>i + 1\<close>: the scan is not started again for the new candidate.\<close>

function scan_divisors :: "32 word \<Rightarrow> 32 word \<Rightarrow> 32 word" where
  "scan_divisors i newSize =
     (if i \<le> newSize div 2
      then scan_divisors (i + 1) (if newSize mod i = 0 then newSize + 1 else newSize)
      else newSize)"
  by pat_completeness auto
termination
proof (relation "measure (\<lambda>(i, newSize). 2 ^ 32 - unat i)")
  show "wf (measure (\<lambda>(i :: 32 word, newSize :: 32 word). 2 ^ 32 - unat i))"
    by simp
next
  fix i newSize :: "32 word"
  assume le: "i \<le> newSize div 2"
  have "unat (newSize div 2) < 2 ^ 31"
    using unsigned_less [of newSize, where 'a = nat] by (simp add: unat_div)
  with le have small: "unat i < 2 ^ 31"
    by (simp add: word_le_nat_alt)
  then have "unat (i + 1) = unat i + 1"
    by (simp add: unat_word_ariths)
  with small
  show "((i + 1, if newSize mod i = 0 then newSize + 1 else newSize), (i, newSize))
        \<in> measure (\<lambda>(i, newSize). 2 ^ 32 - unat i)"
    by simp
qed

text \<open>The \<open>while (!isPrime)\<close> loop (lines 308-323): \<open>isPrime\<close> starts false and the body
  ends with \<open>isPrime = true\<close>, so the body runs once.\<close>

definition find_size :: "32 word \<Rightarrow> 32 word" where
  "find_size newSize = scan_divisors 2 newSize"

text \<open>\<open>Insert\<close> (lines 185-218) and \<open>Resize\<close> (lines 301-347) call each other. The first
  argument bounds the depth of that nesting: \<open>Resize\<close> needs one unit for the calls of
  \<open>Insert\<close> it makes. \<open>reinsert\<close> is the loop of lines 336-345 over the courses read
  from the copy \<open>temp\<close> of the old vector, bucket by bucket and along each chain.\<close>

function Insert :: "nat \<Rightarrow> Course \<Rightarrow> HashTable \<Rightarrow> error + HashTable"
  and Resize :: "nat \<Rightarrow> HashTable \<Rightarrow> error + HashTable"
  and reinsert :: "nat \<Rightarrow> Course list \<Rightarrow> HashTable \<Rightarrow> error + HashTable"
where
  "Insert fuel aCourse t =
     (case place aCourse t of
        Inl e \<Rightarrow> Inl e
      | Inr t1 \<Rightarrow>
          let t2 = count_entry t1
          in if loadFactor t2 \<ge> 1 then Resize fuel t2 else Inr t2)"
| "Resize 0 t = Inl OutOfFuel"
| "Resize (Suc fuel) t =
     (let temp = nodes t;
          newSize = find_size (tableSize t * 2);
          t1 = t\<lparr>tableSize := newSize\<rparr>;
          t2 = t1\<lparr>nodes := replicate (unat (tableSize t1)) Node_default\<rparr>;
          t3 = t2\<lparr>numEntries := 0\<rparr>
      in reinsert fuel (concat (map bucket_courses temp)) t3)"
| "reinsert fuel [] t = Inr t"
| "reinsert fuel (c # cs) t =
     (case Insert fuel c t of
        Inl e \<Rightarrow> Inl e
      | Inr t1 \<Rightarrow> reinsert fuel cs t1)"
  by pat_completeness auto
termination
  by (relation "measures
       [\<lambda>x. case x of
               Inl (fuel, _, _) \<Rightarrow> 3 * fuel + 1
             | Inr (Inl (fuel, _)) \<Rightarrow> 3 * fuel
             | Inr (Inr (fuel, _, _)) \<Rightarrow> 3 * fuel + 2,
        \<lambda>x. case x of
               Inr (Inr (_, cs, _)) \<Rightarrow> length cs
             | _ \<Rightarrow> 0]")
    auto

subsection \<open>Search\<close>

text \<open>\<open>HashTable::Search\<close> (lines 260-294). The table is returned with the result, so
  that what the call does to it can be stated.\<close>

definition Search :: "string \<Rightarrow> HashTable \<Rightarrow> error + (Course \<times> HashTable)" where
  "Search cid t =
     (let blank = Course_default
      in case hash t cid of
           Inl e \<Rightarrow> Inl e
         | Inr h \<Rightarrow>
             let i = index_of h
             in if length (nodes t) \<le> i then Inl IndexOutOfRange
                else let current = nodes t ! i
                     in if key current = UINT_MAX then Inr (blank, t)
                        else if courseId (course current) = cid then Inr (course current, t)
                        else Inr (search_next current cid blank, t))"


subsection \<open>The sort of the C++ library\<close>

text \<open>\<open>std::sort\<close> belongs to the C++ library, not to the repository, and the standard
  fixes only that its result is an ordered permutation of the range. What \<open>Sort\<close> returns
  for records with equal ids depends on the algorithm behind it, so the library's
  algorithm is embedded: the introsort of GNU libstdc++ (\<open>bits/stl_algo.h\<close> and
  \<open>bits/stl_heap.h\<close>), the library of the platform of the machine model. It partitions
  around a median of three until the ranges are at most 16 long, sorts a range by a heap
  when the depth limit \<open>2 * floor (log2 n)\<close> is used up, and ends with one insertion
  sort over the whole range.

  The range \<open>[first, last)\<close> is a list and an iterator is an index into it. The
  library's unguarded functions run without bound checks; here every read and write is
  checked, and one outside the range ends the computation with \<open>None\<close>.\<close>

definition rd :: "'a list \<Rightarrow> nat \<Rightarrow> 'a option" where
  "rd xs i = (if i < length xs then Some (xs ! i) else None)"

definition wr :: "'a list \<Rightarrow> nat \<Rightarrow> 'a \<Rightarrow> 'a list option" where
  "wr xs i v = (if i < length xs then Some (xs[i := v]) else None)"

text \<open>\<open>std::iter_swap\<close>.\<close>

definition iter_swap :: "nat \<Rightarrow> nat \<Rightarrow> 'a list \<Rightarrow> 'a list option" where
  "iter_swap i j xs = do { a \<leftarrow> rd xs i; b \<leftarrow> rd xs j; ys \<leftarrow> wr xs i b; wr ys j a }"

text \<open>\<open>std::__lg\<close>, the position of the highest set bit, and the constant
  \<open>_S_threshold\<close>.\<close>

fun lg :: "nat \<Rightarrow> nat" where
  "lg n = (if n < 2 then 0 else Suc (lg (n div 2)))"

declare lg.simps [simp del]

definition S_threshold :: nat where
  "S_threshold = 16"

text \<open>\<open>std::__push_heap\<close>: the hole moves up while the parent is less than the value.
  The library computes \<open>(holeIndex - 1) / 2\<close> on a signed type, where it is 0 for the
  hole 0 as it is on the natural numbers.\<close>

function push_heap :: "('a \<Rightarrow> 'a \<Rightarrow> bool) \<Rightarrow> nat \<Rightarrow> nat \<Rightarrow> 'a \<Rightarrow> 'a list \<Rightarrow> 'a list option" where
  "push_heap cmp holeIndex topIndex val xs =
     (let parent = (holeIndex - 1) div 2
      in if holeIndex > topIndex
         then do {
           p \<leftarrow> rd xs parent;
           if cmp p val
           then do { ys \<leftarrow> wr xs holeIndex p; push_heap cmp parent topIndex val ys }
           else wr xs holeIndex val }
         else wr xs holeIndex val)"
  by pat_completeness auto
termination
  by (relation "measure (\<lambda>(cmp, holeIndex, topIndex, val, xs). holeIndex)") auto

declare push_heap.simps [simp del]

text \<open>\<open>std::__adjust_heap\<close>. Its first loop moves the hole down to the larger child as
  long as there are two children (\<open>sift_hole\<close>; the hole and \<open>secondChild\<close> coincide at
  the head of the loop); a last node with a single child is handled after it, and the
  value is pushed up from where the hole has arrived.\<close>

function sift_hole :: "('a \<Rightarrow> 'a \<Rightarrow> bool) \<Rightarrow> nat \<Rightarrow> nat \<Rightarrow> 'a list \<Rightarrow> ('a list \<times> nat) option" where
  "sift_hole cmp len secondChild xs =
     (if secondChild < (len - 1) div 2
      then do {
        let right = 2 * (secondChild + 1);
        a \<leftarrow> rd xs right;
        b \<leftarrow> rd xs (right - 1);
        let child = (if cmp a b then right - 1 else right);
        c \<leftarrow> rd xs child;
        ys \<leftarrow> wr xs secondChild c;
        sift_hole cmp len child ys }
      else Some (xs, secondChild))"
  by pat_completeness auto
termination
  by (relation "measure (\<lambda>(cmp, len, secondChild, xs). len - secondChild)") auto

declare sift_hole.simps [simp del]

definition adjust_heap :: "('a \<Rightarrow> 'a \<Rightarrow> bool) \<Rightarrow> nat \<Rightarrow> nat \<Rightarrow> 'a \<Rightarrow> 'a list \<Rightarrow> 'a list option" where
  "adjust_heap cmp holeIndex len val xs =
     do {
       (ys, secondChild) \<leftarrow> sift_hole cmp len holeIndex xs;
       if even len \<and> secondChild = (len - 2) div 2
       then do {
         let right = 2 * (secondChild + 1);
         c \<leftarrow> rd ys (right - 1);
         zs \<leftarrow> wr ys secondChild c;
         push_heap cmp (right - 1) holeIndex val zs }
       else push_heap cmp secondChild holeIndex val ys }"

text \<open>\<open>std::__pop_heap\<close> on the heap \<open>[0, lastIdx)\<close>, the top going to \<open>result\<close>.\<close>

definition pop_heap :: "('a \<Rightarrow> 'a \<Rightarrow> bool) \<Rightarrow> nat \<Rightarrow> nat \<Rightarrow> 'a list \<Rightarrow> 'a list option" where
  "pop_heap cmp lastIdx result xs =
     do {
       val \<leftarrow> rd xs result;
       top \<leftarrow> rd xs 0;
       ys \<leftarrow> wr xs result top;
       adjust_heap cmp 0 lastIdx val ys }"

text \<open>\<open>std::__make_heap\<close>: from the last inner node down to the root.\<close>

fun make_heap_loop :: "('a \<Rightarrow> 'a \<Rightarrow> bool) \<Rightarrow> nat \<Rightarrow> nat \<Rightarrow> 'a list \<Rightarrow> 'a list option" where
  "make_heap_loop cmp len parent xs =
     do {
       val \<leftarrow> rd xs parent;
       ys \<leftarrow> adjust_heap cmp parent len val xs;
       case parent of 0 \<Rightarrow> Some ys | Suc p \<Rightarrow> make_heap_loop cmp len p ys }"

definition make_heap :: "('a \<Rightarrow> 'a \<Rightarrow> bool) \<Rightarrow> nat \<Rightarrow> 'a list \<Rightarrow> 'a list option" where
  "make_heap cmp lastIdx xs =
     (if lastIdx < 2 then Some xs
      else make_heap_loop cmp lastIdx ((lastIdx - 2) div 2) xs)"

text \<open>\<open>std::__sort_heap\<close>, and \<open>std::__partial_sort\<close> with \<open>middle = last\<close>, as
  \<open>__introsort_loop\<close> calls it: \<open>__heap_select\<close> is then \<open>__make_heap\<close> alone.\<close>

fun sort_heap :: "('a \<Rightarrow> 'a \<Rightarrow> bool) \<Rightarrow> nat \<Rightarrow> 'a list \<Rightarrow> 'a list option" where
  "sort_heap cmp lastIdx xs =
     (if lastIdx > 1
      then do {
        ys \<leftarrow> pop_heap cmp (lastIdx - 1) (lastIdx - 1) xs;
        sort_heap cmp (lastIdx - 1) ys }
      else Some xs)"

declare make_heap_loop.simps [simp del] sort_heap.simps [simp del]

definition partial_sort :: "('a \<Rightarrow> 'a \<Rightarrow> bool) \<Rightarrow> 'a list \<Rightarrow> 'a list option" where
  "partial_sort cmp xs =
     do { ys \<leftarrow> make_heap cmp (length xs) xs; sort_heap cmp (length xs) ys }"

text \<open>\<open>std::__move_median_to_first\<close>.\<close>

definition move_median_to_first ::
  "('a \<Rightarrow> 'a \<Rightarrow> bool) \<Rightarrow> nat \<Rightarrow> nat \<Rightarrow> nat \<Rightarrow> nat \<Rightarrow> 'a list \<Rightarrow> 'a list option" where
  "move_median_to_first cmp result a b c xs =
     do {
       va \<leftarrow> rd xs a; vb \<leftarrow> rd xs b; vc \<leftarrow> rd xs c;
       if cmp va vb
       then (if cmp vb vc then iter_swap result b xs
             else if cmp va vc then iter_swap result c xs
             else iter_swap result a xs)
       else if cmp va vc then iter_swap result a xs
       else if cmp vb vc then iter_swap result c xs
       else iter_swap result b xs }"

text \<open>\<open>std::__unguarded_partition\<close>: \<open>advance\<close> is its loop
  \<open>while (comp(first, pivot)) ++first\<close>, \<open>retreat\<close> its loop
  \<open>while (comp(pivot, last)) --last\<close> after the decrement of \<open>last\<close>. The result is the
  range and the cut.\<close>

function advance :: "('a \<Rightarrow> 'a \<Rightarrow> bool) \<Rightarrow> nat \<Rightarrow> nat \<Rightarrow> 'a list \<Rightarrow> nat option" where
  "advance cmp pivot firstIdx xs =
     do {
       v \<leftarrow> rd xs firstIdx; p \<leftarrow> rd xs pivot;
       if cmp v p then advance cmp pivot (firstIdx + 1) xs else Some firstIdx }"
  by pat_completeness auto
termination
  by (relation "measure (\<lambda>(cmp, pivot, firstIdx, xs). length xs - firstIdx)")
    (auto simp: rd_def split: if_splits)

declare advance.simps [simp del]

fun retreat :: "('a \<Rightarrow> 'a \<Rightarrow> bool) \<Rightarrow> nat \<Rightarrow> nat \<Rightarrow> 'a list \<Rightarrow> nat option" where
  "retreat cmp pivot 0 xs =
     do { p \<leftarrow> rd xs pivot; v \<leftarrow> rd xs 0; if cmp p v then None else Some 0 }"
| "retreat cmp pivot (Suc l) xs =
     do {
       p \<leftarrow> rd xs pivot; v \<leftarrow> rd xs (Suc l);
       if cmp p v then retreat cmp pivot l xs else Some (Suc l) }"

function unguarded_partition ::
  "('a \<Rightarrow> 'a \<Rightarrow> bool) \<Rightarrow> nat \<Rightarrow> nat \<Rightarrow> nat \<Rightarrow> 'a list \<Rightarrow> ('a list \<times> nat) option" where
  "unguarded_partition cmp firstIdx lastIdx pivot xs =
     do {
       first1 \<leftarrow> advance cmp pivot firstIdx xs;
       last1 \<leftarrow> (if lastIdx = 0 then None else retreat cmp pivot (lastIdx - 1) xs);
       if \<not> first1 < last1 then Some (xs, first1)
       else do {
         ys \<leftarrow> iter_swap first1 last1 xs;
         unguarded_partition cmp (first1 + 1) last1 pivot ys } }"
  by pat_completeness auto
termination
proof (relation "measure (\<lambda>(cmp, firstIdx, lastIdx, pivot, xs). lastIdx - firstIdx)")
  show "wf (measure (\<lambda>(cmp :: 'a \<Rightarrow> 'a \<Rightarrow> bool, firstIdx :: nat, lastIdx :: nat, pivot :: nat,
      xs :: 'a list). lastIdx - firstIdx))"
    by simp
next
  fix cmp :: "'a \<Rightarrow> 'a \<Rightarrow> bool" and firstIdx lastIdx pivot first1 last1 :: nat
    and xs ys :: "'a list"
  assume a: "advance cmp pivot firstIdx xs = Some first1"
    and r: "(if lastIdx = 0 then None else retreat cmp pivot (lastIdx - 1) xs) = Some last1"
    and lt: "\<not> \<not> first1 < last1"
  have up: "\<And>i j. advance cmp pivot i xs = Some j \<Longrightarrow> i \<le> j"
  proof -
    fix i j show "advance cmp pivot i xs = Some j \<Longrightarrow> i \<le> j"
    proof (induction cmp pivot i xs rule: advance.induct)
      case (1 cmp pivot firstIdx xs)
      from "1.prems" have "firstIdx < length xs" and "pivot < length xs"
        and step: "if cmp (xs ! firstIdx) (xs ! pivot)
                   then advance cmp pivot (firstIdx + 1) xs = Some j else firstIdx = j"
        by (subst (asm) advance.simps, auto simp: rd_def split: if_splits)+
      show ?case
      proof (cases "cmp (xs ! firstIdx) (xs ! pivot)")
        case True
        with step have "advance cmp pivot (firstIdx + 1) xs = Some j" by simp
        with "1.IH" [of "xs ! firstIdx" "xs ! pivot"] True
          \<open>firstIdx < length xs\<close> \<open>pivot < length xs\<close>
        have "firstIdx + 1 \<le> j" by (simp add: rd_def)
        then show ?thesis by simp
      next
        case False
        with step show ?thesis by simp
      qed
    qed
  qed
  have down: "\<And>i j. retreat cmp pivot i xs = Some j \<Longrightarrow> j \<le> i"
  proof -
    fix i j show "retreat cmp pivot i xs = Some j \<Longrightarrow> j \<le> i"
      by (induction i) (auto simp: rd_def split: if_splits)
  qed
  from r have "lastIdx \<noteq> 0" and "retreat cmp pivot (lastIdx - 1) xs = Some last1"
    by (auto split: if_splits)
  with down have "last1 \<le> lastIdx - 1" by blast
  moreover from a up have "firstIdx \<le> first1" by blast
  ultimately
  show "((cmp, first1 + 1, last1, pivot, ys), (cmp, firstIdx, lastIdx, pivot, xs))
      \<in> measure (\<lambda>(cmp, firstIdx, lastIdx, pivot, xs). lastIdx - firstIdx)"
    using lt by simp
qed

declare unguarded_partition.simps [simp del]

text \<open>\<open>std::__unguarded_partition_pivot\<close>: the median of the second, the middle and
  the last element goes to the front, and the rest is partitioned around it.\<close>

definition unguarded_partition_pivot ::
  "('a \<Rightarrow> 'a \<Rightarrow> bool) \<Rightarrow> 'a list \<Rightarrow> ('a list \<times> nat) option" where
  "unguarded_partition_pivot cmp xs =
     do {
       let mid = length xs div 2;
       ys \<leftarrow> (if length xs = 0 then None
              else move_median_to_first cmp 0 1 mid (length xs - 1) xs);
       unguarded_partition cmp 1 (length xs) 0 ys }"

text \<open>\<open>std::__unguarded_linear_insert\<close>: the value at \<open>lastIdx\<close> moves down past the
  elements it is less than; nothing stops the loop at the start of the range.\<close>

fun linear_insert_loop :: "('a \<Rightarrow> 'a \<Rightarrow> bool) \<Rightarrow> 'a \<Rightarrow> nat \<Rightarrow> 'a list \<Rightarrow> 'a list option" where
  "linear_insert_loop cmp val 0 xs = None"
| "linear_insert_loop cmp val (Suc nextIdx) xs =
     do {
       n \<leftarrow> rd xs nextIdx;
       if cmp val n
       then do { ys \<leftarrow> wr xs (Suc nextIdx) n; linear_insert_loop cmp val nextIdx ys }
       else wr xs (Suc nextIdx) val }"

definition unguarded_linear_insert :: "('a \<Rightarrow> 'a \<Rightarrow> bool) \<Rightarrow> nat \<Rightarrow> 'a list \<Rightarrow> 'a list option" where
  "unguarded_linear_insert cmp lastIdx xs =
     do { val \<leftarrow> rd xs lastIdx; linear_insert_loop cmp val lastIdx xs }"

text \<open>\<open>std::__insertion_sort\<close>. An element less than the first one is moved to the
  front by \<open>std::move_backward\<close> and an assignment (\<open>move_to_front\<close>); any other is
  inserted by \<open>__unguarded_linear_insert\<close>.\<close>

definition move_to_front :: "nat \<Rightarrow> nat \<Rightarrow> 'a list \<Rightarrow> 'a list option" where
  "move_to_front firstIdx i xs =
     (if firstIdx \<le> i \<and> i < length xs
      then Some (take firstIdx xs @ [xs ! i] @ take (i - firstIdx) (drop firstIdx xs)
                 @ drop (Suc i) xs)
      else None)"

function insertion_loop ::
  "('a \<Rightarrow> 'a \<Rightarrow> bool) \<Rightarrow> nat \<Rightarrow> nat \<Rightarrow> nat \<Rightarrow> 'a list \<Rightarrow> 'a list option" where
  "insertion_loop cmp firstIdx i lastIdx xs =
     (if i < lastIdx
      then do {
        v \<leftarrow> rd xs i; f \<leftarrow> rd xs firstIdx;
        ys \<leftarrow> (if cmp v f then move_to_front firstIdx i xs
               else unguarded_linear_insert cmp i xs);
        insertion_loop cmp firstIdx (i + 1) lastIdx ys }
      else Some xs)"
  by pat_completeness auto
termination
  by (relation "measure (\<lambda>(cmp, firstIdx, i, lastIdx, xs). lastIdx - i)") auto

declare insertion_loop.simps [simp del]

definition insertion_sort :: "('a \<Rightarrow> 'a \<Rightarrow> bool) \<Rightarrow> nat \<Rightarrow> nat \<Rightarrow> 'a list \<Rightarrow> 'a list option" where
  "insertion_sort cmp firstIdx lastIdx xs =
     (if firstIdx = lastIdx then Some xs
      else insertion_loop cmp firstIdx (firstIdx + 1) lastIdx xs)"

text \<open>\<open>std::__unguarded_insertion_sort\<close> and \<open>std::__final_insertion_sort\<close>.\<close>

function unguarded_insertion_sort ::
  "('a \<Rightarrow> 'a \<Rightarrow> bool) \<Rightarrow> nat \<Rightarrow> nat \<Rightarrow> 'a list \<Rightarrow> 'a list option" where
  "unguarded_insertion_sort cmp i lastIdx xs =
     (if i < lastIdx
      then do {
        ys \<leftarrow> unguarded_linear_insert cmp i xs;
        unguarded_insertion_sort cmp (i + 1) lastIdx ys }
      else Some xs)"
  by pat_completeness auto
termination
  by (relation "measure (\<lambda>(cmp, i, lastIdx, xs). lastIdx - i)") auto

declare unguarded_insertion_sort.simps [simp del]

definition final_insertion_sort :: "('a \<Rightarrow> 'a \<Rightarrow> bool) \<Rightarrow> 'a list \<Rightarrow> 'a list option" where
  "final_insertion_sort cmp xs =
     (if length xs > S_threshold
      then do {
        ys \<leftarrow> insertion_sort cmp 0 S_threshold xs;
        unguarded_insertion_sort cmp S_threshold (length xs) ys }
      else insertion_sort cmp 0 (length xs) xs)"

text \<open>\<open>std::__introsort_loop\<close>. The library recurses into the part from the cut on and
  iterates on the part before it with the depth limit already decremented; here both are
  recursive calls, on the two parts of the list, put together again afterwards.\<close>

fun introsort_loop :: "('a \<Rightarrow> 'a \<Rightarrow> bool) \<Rightarrow> nat \<Rightarrow> 'a list \<Rightarrow> 'a list option" where
  "introsort_loop cmp depth_limit xs =
     (if length xs > S_threshold
      then (case depth_limit of
              0 \<Rightarrow> partial_sort cmp xs
            | Suc d \<Rightarrow>
                do {
                  (ys, cut) \<leftarrow> unguarded_partition_pivot cmp xs;
                  right \<leftarrow> introsort_loop cmp d (drop cut ys);
                  left \<leftarrow> introsort_loop cmp d (take cut ys);
                  Some (left @ right) })
      else Some xs)"

declare introsort_loop.simps [simp del]

text \<open>\<open>std::sort\<close>, that is \<open>std::__sort\<close>.\<close>

definition std_sort :: "('a \<Rightarrow> 'a \<Rightarrow> bool) \<Rightarrow> 'a list \<Rightarrow> 'a list option" where
  "std_sort cmp xs =
     (if xs = [] then Some []
      else do {
        ys \<leftarrow> introsort_loop cmp (lg (length xs) * 2) xs;
        final_insertion_sort cmp ys })"

subsection \<open>Sort\<close>

text \<open>The loop of \<open>Sort\<close> (lines 240-249) appends the courses of every used bucket to the
  vector it was given.\<close>

definition collect :: "HashTable \<Rightarrow> Course list \<Rightarrow> Course list" where
  "collect t sortCourses = sortCourses @ concat (map bucket_courses (nodes t))"

text \<open>\<open>HashTable::Sort\<close> (lines 237-253) sorts the collected vector with the library's
  sort under \<open>less_than_key\<close> (line 252); the result is the vector it leaves behind.
  \<open>AllSorted\<close> is the call with an empty vector that \<open>PrintAll\<close> makes
  (lines 226-227).\<close>

definition Sort :: "HashTable \<Rightarrow> Course list \<Rightarrow> Course list option" where
  "Sort t sortCourses = std_sort less_than_key (collect t sortCourses)"

definition AllSorted :: "HashTable \<Rightarrow> Course list option" where
  "AllSorted t = Sort t []"

text \<open>A run of calls of \<open>Insert\<close>, one record after the other, as \<open>loadCourses\<close> makes
  them (line 401).\<close>

fun InsertAll :: "nat \<Rightarrow> Course list \<Rightarrow> HashTable \<Rightarrow> error + HashTable" where
  "InsertAll fuel [] t = Inr t"
| "InsertAll fuel (c # cs) t =
     (case Insert fuel c t of
        Inl e \<Rightarrow> Inl e
      | Inr t1 \<Rightarrow> InsertAll fuel cs t1)"

subsection \<open>What the table holds\<close>

text \<open>The bucket a course id falls into in a vector of \<open>n\<close> heads, as a number: the
  accumulator of \<open>hash\<close> read as \<open>size_t\<close>, modulo \<open>n\<close>.\<close>

definition bucket_of :: "nat \<Rightarrow> string \<Rightarrow> nat" where
  "bucket_of n cid = unat (scast (hash_key cid) :: 64 word) mod n"

text \<open>The courses of each bucket in chain order, and all of them in the order in which
  \<open>Sort\<close> and \<open>Resize\<close> read them.\<close>

definition buckets :: "HashTable \<Rightarrow> Course list list" where
  "buckets t = map bucket_courses (nodes t)"

definition stored :: "HashTable \<Rightarrow> Course list" where
  "stored t = concat (buckets t)"

definition has_id :: "string \<Rightarrow> Course \<Rightarrow> bool" where
  "has_id cid c \<longleftrightarrow> courseId c = cid"

text \<open>The entries of a chain that are marked as used (\<open>key\<close> other than \<open>UINT_MAX\<close>),
  counted along \<open>next\<close> from the head, and their number over the whole vector.\<close>

fun occupied :: "Node \<Rightarrow> nat" where
  "occupied (Node c k None) = (if k \<noteq> UINT_MAX then 1 else 0)"
| "occupied (Node c k (Some n)) = (if k \<noteq> UINT_MAX then 1 else 0) + occupied n"

definition occupied_entries :: "HashTable \<Rightarrow> nat" where
  "occupied_entries t = sum_list (map occupied (nodes t))"

text \<open>A chain in which every node is used; a head is either the unused node left by
  the constructor or the start of such a chain.\<close>

fun all_used :: "Node \<Rightarrow> bool" where
  "all_used (Node c k None) \<longleftrightarrow> k \<noteq> UINT_MAX"
| "all_used (Node c k (Some n)) \<longleftrightarrow> k \<noteq> UINT_MAX \<and> all_used n"

definition head_ok :: "Node \<Rightarrow> bool" where
  "head_ok head \<longleftrightarrow> (key head = UINT_MAX \<and> next_node head = None) \<or> all_used head"

text \<open>The state of a table between two calls: the vector has \<open>tableSize\<close> heads, every
  chain is well formed, every course sits in the bucket its id hashes to under the
  current size, \<open>numEntries\<close> is the number of courses held, and the load is below one.\<close>

definition table_inv :: "HashTable \<Rightarrow> bool" where
  "table_inv t \<longleftrightarrow>
     length (nodes t) = unat (tableSize t) \<and>
     list_all head_ok (nodes t) \<and>
     (\<forall>i < length (nodes t). \<forall>c \<in> set (buckets t ! i).
        bucket_of (length (nodes t)) (courseId c) = i) \<and>
     sint (numEntries t) = int (length (stored t)) \<and>
     length (stored t) < unat (tableSize t)"

text \<open>The sizes for which the 32-bit arithmetic of \<open>Resize\<close> and the conversions of the
  bucket index to \<open>int\<close> do not overflow.\<close>

definition small :: "HashTable \<Rightarrow> bool" where
  "small t \<longleftrightarrow> unat (tableSize t) < 2 ^ 29"

text \<open>The table holds the records of a history of insertions: for every id, the
  records with that id are read from the table in the order in which they were
  inserted.\<close>

definition holds :: "HashTable \<Rightarrow> Course list \<Rightarrow> bool" where
  "holds t history \<longleftrightarrow>
     (\<forall>cid. filter (has_id cid) (stored t) = filter (has_id cid) history)"

subsection \<open>Notions of the specification\<close>

text \<open>Primality by trial division.\<close>

definition is_prime :: "nat \<Rightarrow> bool" where
  "is_prime n \<longleftrightarrow> 1 < n \<and> filter (\<lambda>d. n mod d = 0) [2..<n] = []"

text \<open>The reference algorithm of the specification for the hash: an accumulator that
  starts at 0, adds the code of each character and squares itself, on unsigned integers
  of \<open>w\<close> bits with wrap-around, reduced at the end modulo the capacity.\<close>

definition hash_reference :: "nat \<Rightarrow> string \<Rightarrow> nat \<Rightarrow> nat" where
  "hash_reference w cid capacity =
     fold (\<lambda>c acc. ((acc + of_char c) * (acc + of_char c)) mod 2 ^ w) cid 0 mod capacity"

text \<open>A stable sort by id of the courses in collection order, as the specification
  describes the result of \<open>AllSorted\<close>.\<close>

definition stable_by_id :: "Course list \<Rightarrow> Course list" where
  "stable_by_id cs = sort_key courseId cs"

subsection \<open>Notions for the library's sort\<close>

text \<open>The comparison by a key with a linear order, of which \<open>less_than_key\<close> is the
  instance for the course id.\<close>

definition by_key :: "('a \<Rightarrow> 'k::linorder) \<Rightarrow> 'a \<Rightarrow> 'a \<Rightarrow> bool" where
  "by_key f a b \<longleftrightarrow> f a < f b"

text \<open>The positions of a binary heap below position \<open>p\<close>, \<open>p\<close> included.\<close>

inductive below :: "nat \<Rightarrow> nat \<Rightarrow> bool" for p where
  below_refl: "below p p"
| below_left: "below p h \<Longrightarrow> below p (2 * h + 1)"
| below_right: "below p h \<Longrightarrow> below p (2 * h + 2)"

text \<open>The heap order on the first \<open>len\<close> positions for every child whose parent is at
  \<open>p\<close> or after it; the same with the edges at a hole \<open>h\<close> left out; the children of the
  hole being at most the parent of the hole; and their being at most a value.\<close>

definition heap_from :: "('a \<Rightarrow> 'k::linorder) \<Rightarrow> nat \<Rightarrow> nat \<Rightarrow> 'a list \<Rightarrow> bool" where
  "heap_from f p len xs \<longleftrightarrow>
     (\<forall>i. 0 < i \<and> i < len \<and> p \<le> (i - 1) div 2 \<longrightarrow> f (xs ! i) \<le> f (xs ! ((i - 1) div 2)))"

definition heap_but :: "('a \<Rightarrow> 'k::linorder) \<Rightarrow> nat \<Rightarrow> nat \<Rightarrow> nat \<Rightarrow> 'a list \<Rightarrow> bool" where
  "heap_but f p len h xs \<longleftrightarrow>
     (\<forall>i. 0 < i \<and> i < len \<and> p \<le> (i - 1) div 2 \<and> i \<noteq> h \<and> (i - 1) div 2 \<noteq> h \<longrightarrow>
        f (xs ! i) \<le> f (xs ! ((i - 1) div 2)))"

definition under_grand :: "('a \<Rightarrow> 'k::linorder) \<Rightarrow> nat \<Rightarrow> nat \<Rightarrow> nat \<Rightarrow> 'a list \<Rightarrow> bool" where
  "under_grand f p len h xs \<longleftrightarrow>
     (p < h \<longrightarrow> (\<forall>c. 0 < c \<and> c < len \<and> (c - 1) div 2 = h \<longrightarrow>
        f (xs ! c) \<le> f (xs ! ((h - 1) div 2))))"

definition under_val :: "('a \<Rightarrow> 'k::linorder) \<Rightarrow> nat \<Rightarrow> nat \<Rightarrow> 'a \<Rightarrow> 'a list \<Rightarrow> bool" where
  "under_val f len h v xs \<longleftrightarrow>
     (\<forall>c. 0 < c \<and> c < len \<and> (c - 1) div 2 = h \<longrightarrow> f (xs ! c) \<le> f v)"

subsection \<open>Sample records\<close>

definition cs101 :: Course where
  "cs101 = \<lparr>courseId = ''CS101'', courseTitle = ''Intro'', prerequisites = []\<rparr>"

definition cs101b :: Course where
  "cs101b = \<lparr>courseId = ''CS101'', courseTitle = ''Again'', prerequisites = []\<rparr>"

definition cs102 :: Course where
  "cs102 = \<lparr>courseId = ''CS102'', courseTitle = ''Next'', prerequisites = [''CS101'']\<rparr>"

definition math201 :: Course where
  "math201 = \<lparr>courseId = ''MATH201'', courseTitle = ''Calculus'', prerequisites = []\<rparr>"


text \<open>The table after \<open>cs101\<close> and \<open>cs101b\<close> went into a table of size 3, and the one
  after \<open>anonymous\<close> did.\<close>

definition sample_table :: HashTable where
  "sample_table =
     \<lparr>nodes = [Node_default, Node_default, Node cs101 2 (Some (Node cs101b 2 None))],
      tableSize = 3, loadFactor = 2 / 3, numEntries = 2\<rparr>"


text \<open>The table of size 3 after \<open>cs101\<close> and \<open>cs102\<close>, which share a bucket, and the
  table of size 7 that the insertion of \<open>cs101b\<close> into it leaves behind.\<close>

definition pair_table :: HashTable where
  "pair_table =
     \<lparr>nodes = [Node_default, Node_default, Node cs101 2 (Some (Node cs102 2 None))],
      tableSize = 3, loadFactor = 2 / 3, numEntries = 2\<rparr>"

definition grown_table :: HashTable where
  "grown_table =
     \<lparr>nodes = [Node cs102 0 None, Node_default, Node_default,
               Node cs101 3 (Some (Node cs101b 3 None)),
               Node_default, Node_default, Node_default],
      tableSize = 7, loadFactor = 3 / 7, numEntries = 3\<rparr>"

text \<open>Twelve records with the ids \<open>A\<close> to \<open>L\<close>.\<close>

definition twelve :: "Course list" where
  "twelve = map (\<lambda>ch. \<lparr>courseId = [ch], courseTitle = [], prerequisites = []\<rparr>) ''ABCDEFGHIJKL''"

text \<open>Seventeen records with the id \<open>CS101\<close> and the titles \<open>A\<close> to \<open>Q\<close>, the table that
  the default constructor and their insertion in this order leave behind (they share
  bucket 15 of 179), and the seventeen in the order of the titles
  \<open>I Q P O N M L K J A H G F E D C B\<close>.\<close>

definition seventeen :: "Course list" where
  "seventeen =
     map (\<lambda>ch. \<lparr>courseId = ''CS101'', courseTitle = [ch], prerequisites = []\<rparr>)
       ''ABCDEFGHIJKLMNOPQ''"

definition seventeen_table :: HashTable where
  "seventeen_table =
     \<lparr>nodes = replicate 15 Node_default
        @ [Node (hd seventeen) 15 (foldr (\<lambda>c rest. Some (Node c 15 rest)) (tl seventeen) None)]
        @ replicate 163 Node_default,
      tableSize = 179, loadFactor = 17 / 179, numEntries = 17\<rparr>"

definition seventeen_sorted :: "Course list" where
  "seventeen_sorted =
     map (\<lambda>ch. \<lparr>courseId = ''CS101'', courseTitle = [ch], prerequisites = []\<rparr>)
       ''IQPONMLKJAHGFEDCB''"

section \<open>Properties\<close>

text \<open>\<open>Insert\<close> is unfolded only where a proof asks for it.\<close>

declare Insert.simps [simp del]

subsection \<open>Chains\<close>

lemma chain_courses_append_node:
  "chain_courses (append_node n newNode) = chain_courses n @ chain_courses newNode"
  by (induction n newNode rule: append_node.induct) simp_all

lemma key_append_node: "key (append_node n newNode) = key n"
  by (cases "(n, newNode)" rule: append_node.cases) simp_all

lemma all_used_append_node:
  "all_used n \<Longrightarrow> all_used newNode \<Longrightarrow> all_used (append_node n newNode)"
  by (induction n newNode rule: append_node.induct) simp_all

lemma all_used_key: "all_used n \<Longrightarrow> key n \<noteq> UINT_MAX"
  by (cases n rule: all_used.cases) simp_all

lemma occupied_all_used: "all_used n \<Longrightarrow> occupied n = length (chain_courses n)"
  by (induction n rule: all_used.induct) simp_all

lemma occupied_head: "head_ok h \<Longrightarrow> occupied h = length (bucket_courses h)"
proof (cases "key h = UINT_MAX")
  case True
  assume "head_ok h"
  with True have "next_node h = None"
    by (auto simp: head_ok_def dest: all_used_key)
  with True show ?thesis
    by (cases h) (simp add: bucket_courses_def)
next
  case False
  assume "head_ok h"
  with False have "all_used h" by (simp add: head_ok_def)
  with False show ?thesis
    by (simp add: bucket_courses_def occupied_all_used)
qed

lemma chain_courses_first: "chain_courses n = course n # tl (chain_courses n)"
  by (cases n rule: chain_courses.cases) simp_all

lemma search_next_find:
  "search_next n cid blank =
     (case find (has_id cid) (tl (chain_courses n)) of None \<Rightarrow> blank | Some c \<Rightarrow> c)"
proof (induction n cid blank rule: search_next.induct)
  case (1 c k cid blank)
  show ?case by simp
next
  case (2 c k n cid blank)
  have "chain_courses n = course n # tl (chain_courses n)"
    by (rule chain_courses_first)
  then have "find (has_id cid) (chain_courses n) =
      (if courseId (course n) = cid then Some (course n)
       else find (has_id cid) (tl (chain_courses n)))"
    by (metis find.simps(2) has_id_def)
  with 2 show ?case by simp
qed

lemma search_head_find:
  assumes "key h \<noteq> UINT_MAX"
  shows "(if courseId (course h) = cid then course h else search_next h cid blank) =
     (case find (has_id cid) (bucket_courses h) of None \<Rightarrow> blank | Some c \<Rightarrow> c)"
proof -
  have "bucket_courses h = course h # tl (chain_courses h)"
    using assms chain_courses_first [of h] by (simp add: bucket_courses_def)
  then show ?thesis
    by (simp add: search_next_find has_id_def)
qed

subsection \<open>Words\<close>

lemma index_of_of_nat: "b < 2 ^ 31 \<Longrightarrow> index_of (of_nat b) = b"
proof -
  assume b: "b < 2 ^ 31"
  have "sint (of_nat b :: 32 word) = int b"
    using b by (simp add: signed_of_nat signed_take_bit_int_eq_self)
  then have "(scast (of_nat b :: 32 word) :: 64 word) = of_nat b"
    by (simp add: scast_eq)
  then show ?thesis using b by (simp add: index_of_def unat_of_nat)
qed

lemma of_nat_not_UINT_MAX: "b < 2 ^ 31 \<Longrightarrow> (of_nat b :: 32 word) \<noteq> UINT_MAX"
proof
  assume b: "b < 2 ^ 31" and eq: "(of_nat b :: 32 word) = UINT_MAX"
  have "unat (of_nat b :: 32 word) = b"
    using b by (simp add: unat_of_nat)
  moreover have "unat UINT_MAX = 4294967295"
    by (simp add: UINT_MAX_def)
  ultimately show False using b eq by simp
qed

lemma bucket_of_less: "0 < n \<Longrightarrow> bucket_of n cid < n"
  by (simp add: bucket_of_def)

lemma hash_bucket:
  assumes "nodes t \<noteq> []" and "length (nodes t) \<le> 2 ^ 31"
  shows "hash t cid = Inr (of_nat (bucket_of (length (nodes t)) cid))"
proof -
  let ?n = "length (nodes t)"
  let ?x = "scast (hash_key cid) :: 64 word"
  have n64: "unat (of_nat ?n :: 64 word) = ?n"
    using assms(2) by (simp add: unat_of_nat)
  have "unat (?x mod of_nat ?n) = unat ?x mod ?n"
    by (simp add: unat_mod n64)
  then have "(ucast (?x mod of_nat ?n) :: 32 word) = of_nat (unat ?x mod ?n)"
    by (metis of_nat_unat)
  with assms(1) show ?thesis
    by (simp add: hash_def bucket_of_def)
qed


lemma hash_in_range:
  assumes "hash t cid = Inr h"
  shows "unat h < length (nodes t)"
proof -
  let ?n = "length (nodes t)"
  let ?x = "scast (hash_key cid) :: 64 word"
  let ?N = "of_nat ?n :: 64 word"
  from assms have pos: "0 < ?n" and h: "h = ucast (?x mod ?N)"
    by (auto simp: hash_def Let_def split: if_splits)
  have "unat (?x mod ?N) < ?n"
  proof (cases "?N = 0")
    case True
    then have "2 ^ 64 dvd ?n"
      by (simp add: word_of_nat_eq_0_iff)
    with pos have "2 ^ 64 \<le> ?n" by (rule_tac dvd_imp_le) simp_all
    moreover have "unat (?x mod ?N) < 2 ^ 64"
      using unsigned_less [of "?x mod ?N", where 'a = nat] by simp
    ultimately show ?thesis by linarith
  next
    case False
    then have "unat (?x mod ?N) < unat ?N"
      by (simp add: unat_mod unat_gt_0)
    also have "unat ?N \<le> ?n"
      by (simp add: unat_of_nat)
    finally show ?thesis .
  qed
  moreover have "unat h \<le> unat (?x mod ?N)"
    unfolding h
    by (metis (mono_tags, lifting) le_unat_uoi linorder_linear of_nat_unat)
  ultimately show ?thesis by linarith
qed

subsection \<open>The scan\<close>

lemma scan_divisors_bounds:
  "unat n \<le> unat i + d \<Longrightarrow> d < 2 ^ 31 \<Longrightarrow>
   unat n \<le> unat (scan_divisors i n) \<and> unat (scan_divisors i n) \<le> max (unat n) (2 * d + 1)"
proof (induction i n rule: scan_divisors.induct)
  case (1 i n)
  show ?case
  proof (cases "i \<le> n div 2")
    case False
    then show ?thesis by (subst scan_divisors.simps, subst scan_divisors.simps) simp
  next
    case True
    let ?n' = "if n mod i = 0 then n + 1 else n"
    from True have half: "unat i \<le> unat n div 2"
      by (simp add: word_le_nat_alt unat_div)
    with "1.prems" have id: "unat i \<le> d" and nd: "unat n \<le> 2 * d"
      by linarith+
    have n1: "unat (n + 1) = unat n + 1"
      using nd "1.prems"(2) by (simp add: unat_word_ariths)
    have i1: "unat (i + 1) = unat i + 1"
      using id "1.prems"(2) by (simp add: unat_word_ariths)
    have lo: "unat n \<le> unat ?n'" and hi: "unat ?n' \<le> unat n + 1"
      using n1 by simp_all
    have "unat ?n' \<le> unat (i + 1) + d"
      using hi i1 "1.prems"(1) by linarith
    from "1.IH" [OF True this "1.prems"(2)]
    have ih: "unat ?n' \<le> unat (scan_divisors (i + 1) ?n')"
      "unat (scan_divisors (i + 1) ?n') \<le> max (unat ?n') (2 * d + 1)"
      by simp_all
    have eq: "scan_divisors i n = scan_divisors (i + 1) ?n'"
      using True by (subst scan_divisors.simps) simp
    show ?thesis
      using ih lo hi nd unfolding eq by linarith
  qed
qed

lemma find_size_bounds:
  assumes "0 < unat m" and "unat m < 2 ^ 29"
  shows "2 * unat m \<le> unat (find_size (m * 2))" and "unat (find_size (m * 2)) < 4 * unat m"
proof -
  have m2: "unat (m * 2) = 2 * unat m"
    using assms(2) by (simp add: unat_word_ariths)
  have two: "unat (2 :: 32 word) = 2" by simp
  have "unat (m * 2) \<le> unat (2 :: 32 word) + (2 * unat m - 2)"
    using assms(1) m2 two by linarith
  moreover have "2 * unat m - 2 < (2 :: nat) ^ 31"
    using assms(2) by simp
  ultimately have b: "unat (m * 2) \<le> unat (scan_divisors 2 (m * 2)) \<and>
      unat (scan_divisors 2 (m * 2)) \<le> max (unat (m * 2)) (2 * (2 * unat m - 2) + 1)"
    by (rule scan_divisors_bounds)
  from b m2 show "2 * unat m \<le> unat (find_size (m * 2))"
    by (simp add: find_size_def)
  from b m2 assms(1) show "unat (find_size (m * 2)) < 4 * unat m"
    unfolding find_size_def by linarith
qed

subsection \<open>Search and placement in terms of the buckets\<close>

lemma length_buckets: "length (buckets t) = length (nodes t)"
  by (simp add: buckets_def)

lemma Search_find:
  assumes "nodes t \<noteq> []" and "length (nodes t) \<le> 2 ^ 31"
  shows "Search cid t =
     Inr (case find (has_id cid) (buckets t ! bucket_of (length (nodes t)) cid) of
            None \<Rightarrow> Course_default | Some c \<Rightarrow> c, t)"
proof -
  let ?b = "bucket_of (length (nodes t)) cid"
  from assms(1) have b: "?b < length (nodes t)"
    by (simp add: bucket_of_less)
  with assms(2) have idx: "index_of (of_nat ?b) = ?b"
    by (simp add: index_of_of_nat)
  have bk: "buckets t ! ?b = bucket_courses (nodes t ! ?b)"
    using b by (simp add: buckets_def)
  show ?thesis
  proof (cases "key (nodes t ! ?b) = UINT_MAX")
    case True
    then show ?thesis
      using b idx by (simp add: Search_def hash_bucket [OF assms] bk bucket_courses_def)
  next
    case False
    from search_head_find [OF False, of cid Course_default] b idx False
    show ?thesis
      by (auto simp: Search_def hash_bucket [OF assms] bk Let_def split: if_splits)
  qed
qed

lemma place_result:
  assumes "nodes t \<noteq> []" and "length (nodes t) \<le> 2 ^ 31"
  shows "\<exists>ns. place c t = Inr (t\<lparr>nodes := ns\<rparr>) \<and> length ns = length (nodes t) \<and>
           map bucket_courses ns =
             (buckets t)[bucket_of (length (nodes t)) (courseId c) :=
                buckets t ! bucket_of (length (nodes t)) (courseId c) @ [c]] \<and>
           (list_all head_ok (nodes t) \<longrightarrow> list_all head_ok ns)"
proof -
  let ?b = "bucket_of (length (nodes t)) (courseId c)"
  let ?h = "of_nat ?b :: 32 word"
  let ?new = "Node_course_key c ?h"
  let ?cur = "nodes t ! ?b"
  from assms(1) have b: "?b < length (nodes t)"
    by (simp add: bucket_of_less)
  with assms(2) have b31: "?b < 2 ^ 31" by simp
  then have idx: "index_of ?h = ?b" and h: "?h \<noteq> UINT_MAX"
    by (simp_all add: index_of_of_nat of_nat_not_UINT_MAX)
  have new_courses: "bucket_courses ?new = [c]" and new_used: "all_used ?new"
    using h by (simp_all add: bucket_courses_def Node_course_key_def)
  have bk: "buckets t ! ?b = bucket_courses ?cur"
    using b by (simp add: buckets_def)
  show ?thesis
  proof (cases "key ?cur = UINT_MAX")
    case True
    let ?ns = "(nodes t)[?b := ?new]"
    have "place c t = Inr (t\<lparr>nodes := ?ns\<rparr>)"
      using True b idx by (simp add: place_def hash_bucket [OF assms] Let_def)
    moreover have "map bucket_courses ?ns = (buckets t)[?b := buckets t ! ?b @ [c]]"
      using True new_courses bk
      by (simp add: map_update buckets_def bucket_courses_def)
    moreover have "list_all head_ok (nodes t) \<longrightarrow> list_all head_ok ?ns"
      using new_used set_update_subset_insert [of "nodes t" ?b ?new]
      by (auto simp: list_all_iff head_ok_def)
    ultimately show ?thesis by auto
  next
    case False
    let ?ns = "(nodes t)[?b := append_node ?cur ?new]"
    have "place c t = Inr (t\<lparr>nodes := ?ns\<rparr>)"
      using False b idx by (simp add: place_def hash_bucket [OF assms] Let_def)
    moreover have "bucket_courses (append_node ?cur ?new) = bucket_courses ?cur @ [c]"
      using False new_courses h
      by (simp add: bucket_courses_def key_append_node chain_courses_append_node
          Node_course_key_def)
    then have "map bucket_courses ?ns = (buckets t)[?b := buckets t ! ?b @ [c]]"
      using bk by (simp add: map_update buckets_def)
    moreover have "list_all head_ok (nodes t) \<longrightarrow> list_all head_ok ?ns"
    proof
      assume all: "list_all head_ok (nodes t)"
      with b have "head_ok ?cur" by (simp add: list_all_length)
      with False have "all_used ?cur" by (simp add: head_ok_def)
      then have "head_ok (append_node ?cur ?new)"
        using new_used by (simp add: head_ok_def all_used_append_node)
      with all set_update_subset_insert [of "nodes t" ?b "append_node ?cur ?new"]
      show "list_all head_ok ?ns"
        by (auto simp: list_all_iff)
    qed
    ultimately show ?thesis by auto
  qed
qed

subsection \<open>The count and the load factor\<close>

lemma sint_Suc:
  assumes "sint (n :: 32 word) = int k" and "k + 1 < 2 ^ 31"
  shows "sint (n + 1) = int k + 1"
proof -
  have "sint (n + 1) = signed_take_bit 31 (sint n + sint (1 :: 32 word))"
    by (simp add: sint_word_ariths)
  also have "\<dots> = signed_take_bit 31 (int k + 1)"
    using assms(1) by simp
  also have "\<dots> = int k + 1"
    using assms(2) by (simp add: signed_take_bit_int_eq_self)
  finally show ?thesis .
qed

lemma load_test:
  "0 < m \<Longrightarrow> ((1 :: rat) \<le> of_int (int k + 1) / of_nat m) \<longleftrightarrow> m \<le> k + 1"
proof -
  assume m: "0 < m"
  then have "((1 :: rat) \<le> of_int (int k + 1) / of_nat m) \<longleftrightarrow>
      (of_nat m :: rat) \<le> of_int (int k + 1)"
    by (simp add: le_divide_eq_1_pos)
  also have "\<dots> \<longleftrightarrow> int m \<le> int k + 1"
    by (metis of_int_le_iff of_int_of_nat_eq)
  also have "\<dots> \<longleftrightarrow> m \<le> k + 1"
    by linarith
  finally show ?thesis .
qed

subsection \<open>Lists of buckets\<close>

lemma concat_nth_split:
  "b < length bs \<Longrightarrow> concat bs = concat (take b bs) @ bs ! b @ concat (drop (Suc b) bs)"
proof -
  assume "b < length bs"
  then have "bs = take b bs @ bs ! b # drop (Suc b) bs"
    by (rule id_take_nth_drop)
  then have "concat bs = concat (take b bs @ bs ! b # drop (Suc b) bs)"
    by simp
  then show ?thesis by simp
qed

lemma concat_update_split:
  "b < length bs \<Longrightarrow>
   concat (bs[b := ys]) = concat (take b bs) @ ys @ concat (drop (Suc b) bs)"
  by (simp add: upd_conv_take_nth_drop)

lemma in_concat_drop:
  assumes "x \<in> set (concat (drop n bs))"
  shows "\<exists>i. n \<le> i \<and> i < length bs \<and> x \<in> set (bs ! i)"
proof -
  from assms obtain ys where ys: "ys \<in> set (drop n bs)" and x: "x \<in> set ys"
    by auto
  from ys obtain j where j: "j < length (drop n bs)" and "drop n bs ! j = ys"
    by (auto simp: in_set_conv_nth)
  then have "bs ! (n + j) = ys" by simp
  with j x show ?thesis
    by (intro exI [of _ "n + j"]) auto
qed

lemma filter_concat_update:
  assumes "b < length bs"
    and "P c \<Longrightarrow> \<forall>x \<in> set (concat (drop (Suc b) bs)). \<not> P x"
  shows "filter P (concat (bs[b := bs ! b @ [c]])) = filter P (concat bs) @ filter P [c]"
proof (cases "P c")
  case True
  with assms(2) have "filter P (concat (drop (Suc b) bs)) = []"
    by (simp add: filter_empty_conv)
  then show ?thesis
    using assms(1) concat_nth_split [of b bs]
    by (simp add: concat_update_split)
next
  case False
  then show ?thesis
    using assms(1) concat_nth_split [of b bs]
    by (simp add: concat_update_split)
qed

lemma length_concat_update:
  "b < length bs \<Longrightarrow> length (concat (bs[b := bs ! b @ [c]])) = Suc (length (concat bs))"
  using concat_nth_split [of b bs] by (simp add: concat_update_split)

lemma filter_eq_imp_mset:
  assumes "\<And>cid. filter (has_id cid) xs = filter (has_id cid) ys"
  shows "mset xs = mset ys"
proof (rule multiset_eqI)
  fix x
  have "\<And>zs. filter ((=) x) zs = filter ((=) x) (filter (has_id (courseId x)) zs)"
    by (auto simp: has_id_def intro: filter_cong)
  then have "filter ((=) x) xs = filter ((=) x) ys"
    using assms [of "courseId x"] by metis
  then show "count (mset xs) x = count (mset ys) x"
    by (simp add: count_mset count_list_eq_length_filter)
qed

lemma holds_mset: "holds t history \<Longrightarrow> mset (stored t) = mset history"
  by (rule filter_eq_imp_mset) (simp add: holds_def)

lemma holds_length: "holds t history \<Longrightarrow> length (stored t) = length history"
  by (drule holds_mset) (rule mset_eq_length)

lemma holds_stored: "holds t (stored t)"
  by (simp add: holds_def)

lemma holds_append:
  "holds t' (stored t @ cs) \<Longrightarrow> holds t history \<Longrightarrow> holds t' (history @ cs)"
  by (simp add: holds_def)

subsection \<open>An insertion that does not resize\<close>

lemma table_invD:
  assumes "table_inv t"
  shows "length (nodes t) = unat (tableSize t)"
    and "list_all head_ok (nodes t)"
    and "\<forall>i < length (nodes t). \<forall>c \<in> set (buckets t ! i).
           bucket_of (length (nodes t)) (courseId c) = i"
    and "sint (numEntries t) = int (length (stored t))"
    and "length (stored t) < unat (tableSize t)"
  using assms unfolding table_inv_def by blast+

lemma count_entry_fields:
  "nodes (count_entry t) = nodes t" "tableSize (count_entry t) = tableSize t"
  "numEntries (count_entry t) = numEntries t + 1"
  "loadFactor (count_entry t) =
     of_int (sint (numEntries t + 1)) / of_nat (unat (tableSize t))"
  by (simp_all add: count_entry_def Let_def)

lemma placed:
  assumes inv: "table_inv t" and le: "unat (tableSize t) \<le> 2 ^ 31"
  shows "\<exists>t1. place c t = Inr t1 \<and>
      length (nodes t1) = length (nodes t) \<and> list_all head_ok (nodes t1) \<and>
      tableSize t1 = tableSize t \<and> numEntries t1 = numEntries t \<and>
      buckets t1 = (buckets t)[bucket_of (length (nodes t)) (courseId c) :=
                buckets t ! bucket_of (length (nodes t)) (courseId c) @ [c]]"
proof -
  from table_invD [OF inv] have len: "length (nodes t) = unat (tableSize t)"
    and pos: "0 < unat (tableSize t)" and ok: "list_all head_ok (nodes t)"
    by simp_all
  from len pos have ne: "nodes t \<noteq> []" by auto
  from len le have le': "length (nodes t) \<le> 2 ^ 31" by simp
  from place_result [OF ne le', of c] ok show ?thesis
    by (auto simp: buckets_def)
qed

lemma placed_facts:
  assumes inv: "table_inv t" and lt: "unat (tableSize t) < 2 ^ 31"
    and pl: "place c t = Inr t1"
  shows "length (nodes (count_entry t1)) = unat (tableSize (count_entry t1))"
    and "list_all head_ok (nodes (count_entry t1))"
    and "\<forall>i < length (nodes (count_entry t1)). \<forall>x \<in> set (buckets (count_entry t1) ! i).
           bucket_of (length (nodes (count_entry t1))) (courseId x) = i"
    and "sint (numEntries (count_entry t1)) = int (length (stored (count_entry t1)))"
    and "length (stored (count_entry t1)) = Suc (length (stored t))"
    and "holds (count_entry t1) (stored t @ [c])"
    and "loadFactor (count_entry t1) =
           of_int (int (length (stored t)) + 1) / of_nat (unat (tableSize t))"
    and "tableSize (count_entry t1) = tableSize t"
proof -
  let ?m = "length (nodes t)"
  let ?b = "bucket_of ?m (courseId c)"
  let ?t' = "count_entry t1"
  note d = table_invD [OF inv]
  have len: "?m = unat (tableSize t)" by (rule d(1))
  have pos: "0 < unat (tableSize t)" using d(5) by simp
  have hashed: "\<forall>i < ?m. \<forall>x \<in> set (buckets t ! i). bucket_of ?m (courseId x) = i"
    by (rule d(3))
  have cnt: "sint (numEntries t) = int (length (stored t))" by (rule d(4))
  from lt have le: "unat (tableSize t) \<le> 2 ^ 31" by simp
  from placed [OF inv le, of c] pl
  have len1: "length (nodes t1) = ?m" and ok1: "list_all head_ok (nodes t1)"
    and ts1: "tableSize t1 = tableSize t" and ne1: "numEntries t1 = numEntries t"
    and bk1: "buckets t1 = (buckets t)[?b := buckets t ! ?b @ [c]]"
    by auto
  from len pos have b: "?b < length (buckets t)"
    by (simp add: bucket_of_less length_buckets)
  have bk': "buckets ?t' = (buckets t)[?b := buckets t ! ?b @ [c]]"
    using bk1 by (simp add: buckets_def count_entry_fields)
  show lst: "length (stored ?t') = Suc (length (stored t))"
    using b by (simp add: stored_def bk' length_concat_update)
  have k31: "length (stored t) + 1 < 2 ^ 31"
    using d(5) lt by linarith
  show "sint (numEntries ?t') = int (length (stored ?t'))"
    using sint_Suc [OF cnt k31] lst ne1 by (simp add: count_entry_fields)
  show "\<forall>i < length (nodes ?t'). \<forall>x \<in> set (buckets ?t' ! i).
      bucket_of (length (nodes ?t')) (courseId x) = i"
  proof (intro allI impI ballI)
    fix i x
    assume i: "i < length (nodes ?t')" and x: "x \<in> set (buckets ?t' ! i)"
    from i have i': "i < ?m" by (simp add: count_entry_fields len1)
    show "bucket_of (length (nodes ?t')) (courseId x) = i"
    proof (cases "i = ?b")
      case True
      with x b have "x \<in> set (buckets t ! ?b) \<or> x = c"
        by (auto simp: bk')
      with hashed i' True show ?thesis
        by (auto simp: count_entry_fields len1)
    next
      case False
      with x have "x \<in> set (buckets t ! i)" by (simp add: bk')
      with hashed i' show ?thesis
        by (simp add: count_entry_fields len1)
    qed
  qed
  show "length (nodes ?t') = unat (tableSize ?t')"
    using len len1 ts1 by (simp add: count_entry_fields)
  show "list_all head_ok (nodes ?t')"
    using ok1 by (simp add: count_entry_fields)
  show "holds ?t' (stored t @ [c])"
    unfolding holds_def
  proof
    fix cid
    have "has_id cid c \<Longrightarrow> \<forall>x \<in> set (concat (drop (Suc ?b) (buckets t))). \<not> has_id cid x"
    proof
      fix x
      assume c: "has_id cid c" and x: "x \<in> set (concat (drop (Suc ?b) (buckets t)))"
      from in_concat_drop [OF x]
      obtain i where i: "Suc ?b \<le> i" "i < length (buckets t)" "x \<in> set (buckets t ! i)"
        by blast
      with hashed have "bucket_of ?m (courseId x) = i"
        by (simp add: length_buckets)
      with i(1) have "courseId x \<noteq> courseId c" by auto
      with c show "\<not> has_id cid x" by (auto simp: has_id_def)
    qed
    from filter_concat_update [OF b this]
    show "filter (has_id cid) (stored ?t') = filter (has_id cid) (stored t @ [c])"
      by (simp add: stored_def bk')
  qed
  show "loadFactor ?t' = of_int (int (length (stored t)) + 1) / of_nat (unat (tableSize t))"
    using sint_Suc [OF cnt k31] ne1 ts1 by (simp add: count_entry_fields)
  show "tableSize ?t' = tableSize t"
    using ts1 by (simp add: count_entry_fields)
qed

lemma Insert_plain:
  assumes inv: "table_inv t" and lt: "unat (tableSize t) < 2 ^ 31"
    and room: "length (stored t) + 1 < unat (tableSize t)"
  shows "\<exists>t'. Insert fuel c t = Inr t' \<and> table_inv t' \<and> holds t' (stored t @ [c]) \<and>
           tableSize t' = tableSize t"
proof -
  from lt have le: "unat (tableSize t) \<le> 2 ^ 31" by simp
  from placed [OF inv le, of c] obtain t1 where pl: "place c t = Inr t1"
    by blast
  note r = placed_facts [OF inv lt pl]
  have pos: "0 < unat (tableSize t)" using room by simp
  have "\<not> (1 :: rat) \<le> loadFactor (count_entry t1)"
  proof
    assume "(1 :: rat) \<le> loadFactor (count_entry t1)"
    then have "unat (tableSize t) \<le> length (stored t) + 1"
      by (simp only: r(7) load_test [OF pos])
    with room show False by simp
  qed
  with pl have "Insert fuel c t = Inr (count_entry t1)"
    by (simp add: Insert.simps Let_def)
  moreover have "table_inv (count_entry t1)"
    unfolding table_inv_def using r(1-5) room r(8) by simp
  ultimately show ?thesis using r(6,8) by simp
qed

lemma reinsert_plain:
  assumes "table_inv t" and "unat (tableSize t) < 2 ^ 31"
    and "length (stored t) + length cs < unat (tableSize t)"
  shows "\<exists>t'. reinsert fuel cs t = Inr t' \<and> table_inv t' \<and> holds t' (stored t @ cs) \<and>
           tableSize t' = tableSize t"
  using assms
proof (induction cs arbitrary: t)
  case Nil
  then show ?case by (simp add: holds_stored)
next
  case (Cons c cs)
  from Cons.prems have room: "length (stored t) + 1 < unat (tableSize t)"
    by simp
  from Insert_plain [OF Cons.prems(1,2) room, of fuel c]
  obtain t1 where t1: "Insert fuel c t = Inr t1" "table_inv t1"
    "holds t1 (stored t @ [c])" "tableSize t1 = tableSize t"
    by blast
  from t1(3) have "length (stored t1) = length (stored t) + 1"
    by (simp add: holds_length)
  with Cons.prems t1(4) have "length (stored t1) + length cs < unat (tableSize t1)"
    by simp
  from Cons.IH [OF t1(2) _ this] Cons.prems(2) t1(4)
  obtain t' where t': "reinsert fuel cs t1 = Inr t'" "table_inv t'"
    "holds t' (stored t1 @ cs)" "tableSize t' = tableSize t1"
    by auto
  from t'(3) t1(3) have "holds t' ((stored t @ [c]) @ cs)"
    by (rule holds_append)
  with t1 t' show ?case by simp
qed

subsection \<open>An insertion that resizes\<close>

lemma concat_replicate_Nil: "concat (replicate n []) = []"
  by (induction n) simp_all

lemma fresh_table:
  assumes "nodes t = replicate (unat (tableSize t)) Node_default" and "numEntries t = 0"
  shows "stored t = []" and "0 < unat (tableSize t) \<Longrightarrow> table_inv t"
proof -
  have bc: "bucket_courses Node_default = []"
    by (simp add: bucket_courses_def Node_default_def)
  then have bk: "buckets t = replicate (unat (tableSize t)) []"
    by (simp add: buckets_def assms(1))
  then show st: "stored t = []"
    by (simp add: stored_def concat_replicate_Nil)
  have "head_ok Node_default"
    by (simp add: head_ok_def Node_default_def)
  then have "list_all head_ok (nodes t)"
    by (simp add: list_all_iff assms(1))
  with assms st bk show "0 < unat (tableSize t) \<Longrightarrow> table_inv t"
    by (simp add: table_inv_def)
qed

lemma Resize_result:
  assumes pos: "0 < unat (tableSize t)" and sm: "unat (tableSize t) < 2 ^ 29"
    and fill: "length (stored t) < 2 * unat (tableSize t)"
  shows "\<exists>t'. Resize (Suc fuel) t = Inr t' \<and> table_inv t' \<and> holds t' (stored t) \<and>
           2 * unat (tableSize t) \<le> unat (tableSize t') \<and>
           unat (tableSize t') < 4 * unat (tableSize t)"
proof -
  let ?m' = "find_size (tableSize t * 2)"
  let ?t3 = "t\<lparr>tableSize := ?m', nodes := replicate (unat ?m') Node_default,
               numEntries := 0\<rparr>"
  note b = find_size_bounds [OF pos sm]
  from b(1) pos have pos': "0 < unat ?m'" by linarith
  have st3: "stored ?t3 = []" and inv3: "table_inv ?t3"
    using fresh_table [of ?t3] pos' by simp_all
  have lt3: "unat (tableSize ?t3) < 2 ^ 31"
    using b(2) sm by simp
  have room: "length (stored ?t3) + length (stored t) < unat (tableSize ?t3)"
    using fill b(1) by (simp add: st3)
  from reinsert_plain [OF inv3 lt3 room, of fuel]
  obtain t' where t': "reinsert fuel (stored t) ?t3 = Inr t'" "table_inv t'"
    "holds t' (stored ?t3 @ stored t)" "tableSize t' = tableSize ?t3"
    by blast
  have "Resize (Suc fuel) t = reinsert fuel (stored t) ?t3"
    by (simp add: Let_def stored_def buckets_def)
  with t' b show ?thesis
    by (simp add: st3)
qed

lemma Insert_result:
  assumes inv: "table_inv t" and sm: "small t"
  shows "\<exists>t'. Insert (Suc fuel) c t = Inr t' \<and> table_inv t' \<and> holds t' (stored t @ [c]) \<and>
           (if length (stored t) + 1 < unat (tableSize t) then tableSize t' = tableSize t
            else 2 * unat (tableSize t) \<le> unat (tableSize t') \<and>
                 unat (tableSize t') < 4 * unat (tableSize t))"
proof (cases "length (stored t) + 1 < unat (tableSize t)")
  case True
  from sm have lt: "unat (tableSize t) < 2 ^ 31" by (simp add: small_def)
  from Insert_plain [OF inv lt True, of "Suc fuel" c] True show ?thesis
    by auto
next
  case False
  from sm have sm': "unat (tableSize t) < 2 ^ 29" by (simp add: small_def)
  then have lt: "unat (tableSize t) < 2 ^ 31" and le: "unat (tableSize t) \<le> 2 ^ 31"
    by simp_all
  from placed [OF inv le, of c] obtain t1 where pl: "place c t = Inr t1"
    by blast
  let ?t2 = "count_entry t1"
  note r = placed_facts [OF inv lt pl]
  have pos: "0 < unat (tableSize t)" using table_invD(5) [OF inv] by simp
  have "(1 :: rat) \<le> loadFactor ?t2"
    using False by (simp only: r(7) load_test [OF pos])
  with pl have ins: "Insert (Suc fuel) c t = Resize (Suc fuel) ?t2"
    by (simp add: Insert.simps Let_def)
  have fill: "length (stored ?t2) < 2 * unat (tableSize ?t2)"
    using r(5,8) table_invD(5) [OF inv] by simp
  from Resize_result [of ?t2 fuel] pos sm' fill r(8)
  obtain t' where t': "Resize (Suc fuel) ?t2 = Inr t'" "table_inv t'" "holds t' (stored ?t2)"
    "2 * unat (tableSize t) \<le> unat (tableSize t')"
    "unat (tableSize t') < 4 * unat (tableSize t)"
    by auto
  from t'(3) r(6) have "holds t' (stored t @ [c])"
    by (simp add: holds_def)
  with ins t' False show ?thesis by simp
qed

lemma fuel_mono:
  "Insert fuel c t = Inr t' \<Longrightarrow> Insert (Suc fuel) c t = Inr t'"
  "Resize fuel t = Inr t' \<Longrightarrow> Resize (Suc fuel) t = Inr t'"
  "reinsert fuel cs t = Inr t' \<Longrightarrow> reinsert (Suc fuel) cs t = Inr t'"
proof (induction fuel c t and fuel t and fuel cs t arbitrary: t' and t' and t'
    rule: Insert_Resize_reinsert.induct)
  case (1 fuel aCourse t)
  then show ?case
    by (auto simp: Insert.simps Let_def split: sum.splits if_splits)
next
  case (2 t)
  then show ?case by simp
next
  case (3 fuel t)
  then show ?case
    by (simp add: Let_def)
next
  case (4 fuel t)
  then show ?case by simp
next
  case (5 fuel c cs t)
  then show ?case
    by (auto split: sum.splits)
qed

subsection \<open>Runs of insertions\<close>

lemma InsertAll_fuel_mono:
  "InsertAll fuel cs t = Inr t' \<Longrightarrow> InsertAll (Suc fuel) cs t = Inr t'"
proof (induction cs arbitrary: t)
  case Nil
  then show ?case by simp
next
  case (Cons c cs)
  from Cons.prems obtain t1 where t1: "Insert fuel c t = Inr t1"
    and rest: "InsertAll fuel cs t1 = Inr t'"
    by (auto split: sum.splits)
  from t1 have "Insert (Suc fuel) c t = Inr t1"
    by (rule fuel_mono(1))
  with Cons.IH [OF rest] show ?case by simp
qed

lemma InsertAll_result:
  assumes "table_inv t" and "holds t history"
    and "unat (tableSize t) \<le> max n0 (4 * length history)"
    and "n0 < 2 ^ 29" and "length history + length cs \<le> 2 ^ 27"
  shows "\<exists>t'. InsertAll (Suc fuel) cs t = Inr t' \<and> table_inv t' \<and> holds t' (history @ cs) \<and>
           unat (tableSize t') \<le> max n0 (4 * (length history + length cs))"
  using assms
proof (induction cs arbitrary: t history)
  case Nil
  then show ?case by simp
next
  case (Cons c cs)
  from Cons.prems(3,4,5) have sm: "small t"
    by (simp add: small_def)
  have k: "length (stored t) = length history"
    using Cons.prems(2) by (rule holds_length)
  from Insert_result [OF Cons.prems(1) sm, of fuel c]
  obtain t1 where t1: "Insert (Suc fuel) c t = Inr t1" "table_inv t1"
    "holds t1 (stored t @ [c])"
    "if length (stored t) + 1 < unat (tableSize t) then tableSize t1 = tableSize t
     else 2 * unat (tableSize t) \<le> unat (tableSize t1) \<and>
          unat (tableSize t1) < 4 * unat (tableSize t)"
    by blast
  from t1(3) Cons.prems(2) have h1: "holds t1 (history @ [c])"
    by (rule holds_append)
  have cap1: "unat (tableSize t1) \<le> max n0 (4 * length (history @ [c]))"
  proof (cases "length (stored t) + 1 < unat (tableSize t)")
    case True
    with t1(4) Cons.prems(3) show ?thesis by simp
  next
    case False
    with t1(4) have "unat (tableSize t1) < 4 * unat (tableSize t)" by simp
    moreover from False k have "unat (tableSize t) \<le> length history + 1" by simp
    ultimately show ?thesis by simp
  qed
  have "length (history @ [c]) + length cs \<le> 2 ^ 27"
    using Cons.prems(5) by simp
  from Cons.IH [OF t1(2) h1 cap1 Cons.prems(4) this]
  obtain t' where "InsertAll (Suc fuel) cs t1 = Inr t'" "table_inv t'"
    "holds t' ((history @ [c]) @ cs)"
    "unat (tableSize t') \<le> max n0 (4 * (length (history @ [c]) + length cs))"
    by blast
  with t1(1) show ?case by simp
qed

lemma HashTable_size_fresh:
  "stored (HashTable_size n) = []" "0 < unat n \<Longrightarrow> table_inv (HashTable_size n)"
  using fresh_table [of "HashTable_size n"] by (simp_all add: HashTable_size_def)

lemma HashTable_default_size: "HashTable_default = HashTable_size DEFAULT_SIZE"
  by (simp add: HashTable_default_def HashTable_size_def)

lemma Insert_empty_vector: "nodes t = [] \<Longrightarrow> Insert fuel c t = Inl DivisionByZero"
  by (simp add: Insert.simps place_def hash_def)

lemma run_from_constructor:
  assumes run: "InsertAll fuel cs (HashTable_size n) = Inr t"
    and n: "0 < unat n" "unat n < 2 ^ 29" and len: "length cs \<le> 2 ^ 27"
  shows "table_inv t" and "holds t cs"
proof -
  have h0: "holds (HashTable_size n) []"
    by (simp add: holds_def HashTable_size_fresh)
  have "unat (tableSize (HashTable_size n)) \<le> max (unat n) (4 * length ([] :: Course list))"
    by (simp add: HashTable_size_def)
  from InsertAll_result [OF HashTable_size_fresh(2) [OF n(1)] h0 this n(2), of cs fuel] len
  obtain t' where t': "InsertAll (Suc fuel) cs (HashTable_size n) = Inr t'"
    "table_inv t'" "holds t' cs"
    by auto
  from run have "InsertAll (Suc fuel) cs (HashTable_size n) = Inr t"
    by (rule InsertAll_fuel_mono)
  with t' show "table_inv t" and "holds t cs" by simp_all
qed

subsection \<open>Reading the table\<close>

lemma find_filter_eq:
  "find P xs = (case filter P xs of [] \<Rightarrow> None | x # _ \<Rightarrow> Some x)"
  by (induction xs) simp_all

lemma filter_concat_Nil:
  "(\<And>ys. ys \<in> set yss \<Longrightarrow> filter P ys = []) \<Longrightarrow> filter P (concat yss) = []"
  by (induction yss) simp_all

lemma filter_concat_bucket:
  assumes b: "b < length bs"
    and other: "\<And>i. i < length bs \<Longrightarrow> i \<noteq> b \<Longrightarrow> filter P (bs ! i) = []"
  shows "filter P (concat bs) = filter P (bs ! b)"
proof -
  have "filter P (concat (take b bs)) = []"
  proof (rule filter_concat_Nil)
    fix ys assume "ys \<in> set (take b bs)"
    then obtain i where "i < length (take b bs)" "take b bs ! i = ys"
      by (auto simp: in_set_conv_nth)
    with b other [of i] show "filter P ys = []" by simp
  qed
  moreover have "filter P (concat (drop (Suc b) bs)) = []"
  proof (rule filter_concat_Nil)
    fix ys assume "ys \<in> set (drop (Suc b) bs)"
    then obtain i where "i < length (drop (Suc b) bs)" "drop (Suc b) bs ! i = ys"
      by (auto simp: in_set_conv_nth)
    with b other [of "Suc b + i"] show "filter P ys = []" by simp
  qed
  ultimately show ?thesis
    using concat_nth_split [OF b] by simp
qed

lemma filter_stored_bucket:
  assumes inv: "table_inv t"
  shows "filter (has_id cid) (stored t) =
     filter (has_id cid) (buckets t ! bucket_of (length (nodes t)) cid)"
  unfolding stored_def
proof (rule filter_concat_bucket)
  note d = table_invD [OF inv]
  from d(1,5) show "bucket_of (length (nodes t)) cid < length (buckets t)"
    by (simp add: length_buckets bucket_of_less)
  fix i
  assume i: "i < length (buckets t)" and ne: "i \<noteq> bucket_of (length (nodes t)) cid"
  have "\<forall>x \<in> set (buckets t ! i). \<not> has_id cid x"
  proof
    fix x assume "x \<in> set (buckets t ! i)"
    with d(3) i have "bucket_of (length (nodes t)) (courseId x) = i"
      by (simp add: length_buckets)
    with ne show "\<not> has_id cid x" by (auto simp: has_id_def)
  qed
  then show "filter (has_id cid) (buckets t ! i) = []"
    by (simp add: filter_empty_conv)
qed

lemma Search_history:
  assumes inv: "table_inv t" and lt: "unat (tableSize t) < 2 ^ 31" and h: "holds t history"
  shows "Search cid t =
     Inr (case find (has_id cid) history of None \<Rightarrow> Course_default | Some c \<Rightarrow> c, t)"
proof -
  note d = table_invD [OF inv]
  from d(1,5) have ne: "nodes t \<noteq> []" by auto
  from d(1) lt have le: "length (nodes t) \<le> 2 ^ 31" by simp
  have "find (has_id cid) (buckets t ! bucket_of (length (nodes t)) cid) =
      find (has_id cid) history"
    using filter_stored_bucket [OF inv, of cid] h
    by (simp add: find_filter_eq holds_def)
  with Search_find [OF ne le, of cid] show ?thesis by simp
qed

lemma occupied_entries_stored:
  "list_all head_ok (nodes t) \<Longrightarrow> occupied_entries t = length (stored t)"
proof -
  assume "list_all head_ok (nodes t)"
  then have eq: "map occupied (nodes t) = map (length \<circ> bucket_courses) (nodes t)"
    by (simp add: list_all_iff occupied_head)
  have "occupied_entries t = sum_list (map (length \<circ> bucket_courses) (nodes t))"
    unfolding occupied_entries_def by (simp only: eq)
  also have "\<dots> = length (concat (map bucket_courses (nodes t)))"
    by (simp add: length_concat)
  finally show ?thesis
    by (simp add: stored_def buckets_def)
qed

subsection \<open>Further facts for the claims\<close>


lemma filter_distinct_ids:
  "distinct (map courseId cs) \<Longrightarrow> r \<in> set cs \<Longrightarrow> filter (has_id (courseId r)) cs = [r]"
proof (induction cs)
  case Nil
  then show ?case by simp
next
  case (Cons c cs)
  show ?case
  proof (cases "r = c")
    case True
    from Cons.prems(1) have notin: "courseId c \<notin> set (map courseId cs)"
      by simp
    have "\<forall>x \<in> set cs. \<not> has_id (courseId c) x"
    proof
      fix x assume "x \<in> set cs"
      then have "courseId x \<in> set (map courseId cs)" by simp
      with notin show "\<not> has_id (courseId c) x"
        unfolding has_id_def by metis
    qed
    then have "filter (has_id (courseId c)) cs = []"
      by (simp only: filter_empty_conv)
    moreover have "has_id (courseId c) c" by (simp add: has_id_def)
    ultimately show ?thesis using True by (simp only: filter.simps if_True)
  next
    case False
    with Cons.prems have "r \<in> set cs" and "\<not> has_id (courseId r) c"
      by (auto simp: has_id_def)
    with Cons show ?thesis by (simp only: filter.simps if_False distinct.simps list.map)
  qed
qed

lemma run_small:
  assumes run: "InsertAll fuel cs (HashTable_size n) = Inr t"
    and n: "0 < unat n" "unat n < 2 ^ 29" and len: "length cs \<le> 2 ^ 27"
  shows "unat (tableSize t) < 2 ^ 31"
proof -
  have h0: "holds (HashTable_size n) []"
    by (simp add: holds_def HashTable_size_fresh)
  have "unat (tableSize (HashTable_size n)) \<le> max (unat n) (4 * length ([] :: Course list))"
    by (simp add: HashTable_size_def)
  from InsertAll_result [OF HashTable_size_fresh(2) [OF n(1)] h0 this n(2), of cs fuel] len
  obtain t' where t': "InsertAll (Suc fuel) cs (HashTable_size n) = Inr t'"
    "unat (tableSize t') \<le> max (unat n) (4 * length cs)"
    by auto
  from run have "InsertAll (Suc fuel) cs (HashTable_size n) = Inr t"
    by (rule InsertAll_fuel_mono)
  with t' n(2) len show ?thesis by auto
qed

lemma InsertAll_returns:
  assumes "0 < unat n" and "unat n < 2 ^ 29" and "length cs \<le> 2 ^ 27"
  shows "\<exists>t. InsertAll (Suc fuel) cs (HashTable_size n) = Inr t"
proof -
  have h0: "holds (HashTable_size n) []"
    by (simp add: holds_def HashTable_size_fresh)
  have "unat (tableSize (HashTable_size n)) \<le> max (unat n) (4 * length ([] :: Course list))"
    by (simp add: HashTable_size_def)
  from InsertAll_result [OF HashTable_size_fresh(2) [OF assms(1)] h0 this assms(2), of cs fuel]
    assms(3)
  show ?thesis by auto
qed

lemma run_total:
  assumes "0 < unat n \<or> cs = []" and "unat n < 2 ^ 29" and "length cs \<le> 2 ^ 27"
  shows "\<exists>t. InsertAll (Suc fuel) cs (HashTable_size n) = Inr t \<and> holds t cs \<and>
           list_all head_ok (nodes t) \<and> sint (numEntries t) = int (length (stored t)) \<and>
           (0 < unat n \<longrightarrow> table_inv t \<and> unat (tableSize t) < 2 ^ 31)"
proof (cases "0 < unat n")
  case True
  from InsertAll_returns [OF True assms(2,3), of fuel]
  obtain t where run: "InsertAll (Suc fuel) cs (HashTable_size n) = Inr t"
    by blast
  note inv = run_from_constructor [OF run True assms(2,3)]
  note lt = run_small [OF run True assms(2,3)]
  from table_invD(2,4) [OF inv(1)] inv lt run show ?thesis by simp
next
  case False
  with assms(1) have cs: "cs = []" by simp
  have "head_ok Node_default"
    by (simp add: head_ok_def Node_default_def)
  then have "list_all head_ok (nodes (HashTable_size n))"
    by (simp add: list_all_iff HashTable_size_def)
  moreover have "numEntries (HashTable_size n) = 0"
    by (simp add: HashTable_size_def)
  ultimately show ?thesis
    using False cs by (simp add: holds_def HashTable_size_fresh(1))
qed

subsection \<open>The library's sort: insertion\<close>

lemma by_key_app: "by_key f a b = (f a < f b)"
  by (simp add: by_key_def)

lemma rd_Some [simp]: "i < length xs \<Longrightarrow> rd xs i = Some (xs ! i)"
  by (simp add: rd_def)

lemma wr_Some [simp]: "i < length xs \<Longrightarrow> wr xs i v = Some (xs[i := v])"
  by (simp add: wr_def)

lemma rd_append_length [simp]: "rd (pre @ h # post) (length pre) = Some h"
  by (simp add: rd_def)

lemma wr_append_length [simp]: "wr (pre @ h # post) (length pre) v = Some (pre @ v # post)"
  by (simp add: wr_def)

text \<open>Insertion into a sorted prefix: the loop of \<open>__unguarded_linear_insert\<close> ends
  inside the range when the first element of the prefix is at most the value.\<close>

lemma mset_add_length: "mset ins = add_mset m (mset pre) \<Longrightarrow> length ins = Suc (length pre)"
  by (metis size_mset size_add_mset)

lemma linear_insert_loop_sorted:
  assumes "sorted (map f pre)" and "pre \<noteq> []" and "f (hd pre) \<le> f v"
  shows "\<exists>ins. linear_insert_loop (by_key f) v (length pre) (pre @ h # post) = Some (ins @ post) \<and>
           mset ins = add_mset v (mset pre) \<and> sorted (map f ins) \<and> hd ins = hd pre \<and>
           (\<forall>k. filter (\<lambda>x. f x = k) ins = filter (\<lambda>x. f x = k) (pre @ [v]))"
  using assms
proof (induction pre arbitrary: h post rule: rev_induct)
  case Nil
  then show ?case by simp
next
  case (snoc x pre)
  show ?case
  proof (cases "f v < f x")
    case False
    have "linear_insert_loop (by_key f) v (length (pre @ [x])) ((pre @ [x]) @ h # post) =
        Some ((pre @ [x, v]) @ post)"
      using False rd_append_length [of pre x "h # post"]
        wr_append_length [of "pre @ [x]" h post v]
      by (simp add: by_key_def)
    moreover have "sorted (map f (pre @ [x, v]))"
      using snoc.prems(1) False by (fastforce simp: sorted_append)
    moreover have "hd (pre @ [x, v]) = hd (pre @ [x])"
      by (cases pre) simp_all
    ultimately show ?thesis
      by (intro exI [of _ "pre @ [x, v]"]) simp
  next
    case True
    with snoc.prems(3) have ne: "pre \<noteq> []"
      by (cases pre) auto
    from snoc.prems(1) have s: "sorted (map f pre)"
      by (simp add: sorted_append)
    from snoc.prems(3) ne have hdv: "f (hd pre) \<le> f v"
      by (cases pre) simp_all
    from snoc.IH [OF s ne hdv, of x "x # post"]
    obtain ins where ins: "linear_insert_loop (by_key f) v (length pre) (pre @ x # x # post) =
        Some (ins @ x # post)"
      and m: "mset ins = add_mset v (mset pre)" and so: "sorted (map f ins)"
      and hd: "hd ins = hd pre"
      and st: "\<forall>k. filter (\<lambda>x. f x = k) ins = filter (\<lambda>x. f x = k) (pre @ [v])"
      by blast
    have "linear_insert_loop (by_key f) v (length (pre @ [x])) ((pre @ [x]) @ h # post) =
        Some ((ins @ [x]) @ post)"
      using True ins rd_append_length [of pre x "h # post"]
        wr_append_length [of "pre @ [x]" h post x]
      by (simp add: by_key_def)
    moreover have "sorted (map f (ins @ [x]))"
    proof -
      have "\<forall>y \<in> set ins. f y \<le> f x"
      proof
        fix y assume "y \<in> set ins"
        then have "y \<in># add_mset v (mset pre)" using m by (metis set_mset_mset)
        then have "y = v \<or> y \<in> set pre" by auto
        with True snoc.prems(1) show "f y \<le> f x"
          by (auto simp: sorted_append)
      qed
      with so show ?thesis by (simp add: sorted_append)
    qed
    moreover have "hd (ins @ [x]) = hd (pre @ [x])"
    proof -
      from m have "ins \<noteq> []" by auto
      with hd ne show ?thesis by simp
    qed
    moreover have "mset (ins @ [x]) = add_mset v (mset (pre @ [x]))"
      using m by simp
    moreover have "\<forall>k. filter (\<lambda>x. f x = k) (ins @ [x]) =
        filter (\<lambda>x. f x = k) ((pre @ [x]) @ [v])"
      using st True by auto
    ultimately show ?thesis by blast
  qed
qed

lemma unguarded_linear_insert_sorted:
  assumes "sorted (map f pre)" and "pre \<noteq> []" and "f (hd pre) \<le> f h"
  shows "\<exists>ins. unguarded_linear_insert (by_key f) (length pre) (pre @ h # post) = Some (ins @ post) \<and>
           mset ins = add_mset h (mset pre) \<and> sorted (map f ins) \<and> hd ins = hd pre \<and>
           (\<forall>k. filter (\<lambda>x. f x = k) ins = filter (\<lambda>x. f x = k) (pre @ [h]))"
  using linear_insert_loop_sorted [OF assms, of h post]
  by (simp add: unguarded_linear_insert_def)

lemma move_to_front_append:
  "move_to_front 0 (length pre) (pre @ h # post) = Some ((h # pre) @ post)"
  by (simp add: move_to_front_def)

lemma insertion_loop_sorted:
  assumes "sorted (map f pre)" and "pre \<noteq> []"
  shows "\<exists>srt. insertion_loop (by_key f) 0 (length pre) (length pre + length mid)
             (pre @ mid @ post) = Some (srt @ post) \<and>
           mset srt = mset pre + mset mid \<and> sorted (map f srt) \<and>
           (\<forall>k. filter (\<lambda>x. f x = k) srt = filter (\<lambda>x. f x = k) (pre @ mid))"
  using assms
proof (induction mid arbitrary: pre)
  case Nil
  then show ?case
    by (subst insertion_loop.simps) simp
next
  case (Cons m mid)
  have first: "rd (pre @ (m # mid) @ post) 0 = Some (hd pre)"
    using Cons.prems(2) by (cases pre) simp_all
  have cur: "rd (pre @ (m # mid) @ post) (length pre) = Some m"
    using rd_append_length [of pre m "mid @ post"] by simp
  have "\<exists>ins. (if by_key f m (hd pre) then move_to_front 0 (length pre) (pre @ (m # mid) @ post)
               else unguarded_linear_insert (by_key f) (length pre) (pre @ (m # mid) @ post)) =
          Some (ins @ mid @ post) \<and>
        mset ins = add_mset m (mset pre) \<and> sorted (map f ins) \<and> ins \<noteq> [] \<and>
        length ins = Suc (length pre) \<and>
        (\<forall>k. filter (\<lambda>x. f x = k) ins = filter (\<lambda>x. f x = k) (pre @ [m]))"
  proof (cases "f m < f (hd pre)")
    case True
    have least: "\<forall>y \<in> set pre. f (hd pre) \<le> f y"
      using Cons.prems by (cases pre) auto
    with True Cons.prems(1) have "sorted (map f (m # pre))"
      by fastforce
    moreover have "\<forall>k. filter (\<lambda>x. f x = k) (m # pre) = filter (\<lambda>x. f x = k) (pre @ [m])"
    proof
      fix k
      show "filter (\<lambda>x. f x = k) (m # pre) = filter (\<lambda>x. f x = k) (pre @ [m])"
      proof (cases "f m = k")
        case False
        then show ?thesis by simp
      next
        case same: True
        with True least have "\<forall>y \<in> set pre. f y \<noteq> k" by auto
        then have "filter (\<lambda>x. f x = k) pre = []"
          by (simp add: filter_empty_conv)
        with same show ?thesis by simp
      qed
    qed
    ultimately show ?thesis
      using True move_to_front_append [of pre m "mid @ post"]
      by (intro exI [of _ "m # pre"]) (simp add: by_key_def)
  next
    case False
    then have "f (hd pre) \<le> f m" by simp
    from unguarded_linear_insert_sorted [OF Cons.prems this, of "mid @ post"]
    obtain ins where "unguarded_linear_insert (by_key f) (length pre) (pre @ m # mid @ post) =
        Some (ins @ mid @ post)" "mset ins = add_mset m (mset pre)" "sorted (map f ins)"
      "\<forall>k. filter (\<lambda>x. f x = k) ins = filter (\<lambda>x. f x = k) (pre @ [m])"
      by blast
    moreover from this(2) have "ins \<noteq> []" and "length ins = Suc (length pre)"
      by (auto dest: mset_add_length)
    ultimately show ?thesis using False
      by (intro exI [of _ ins]) (simp add: by_key_def)
  qed
  then obtain ins where step: "(if by_key f m (hd pre)
        then move_to_front 0 (length pre) (pre @ (m # mid) @ post)
        else unguarded_linear_insert (by_key f) (length pre) (pre @ (m # mid) @ post)) =
          Some (ins @ mid @ post)"
    and m: "mset ins = add_mset m (mset pre)" and so: "sorted (map f ins)"
    and ne: "ins \<noteq> []" and len: "length ins = Suc (length pre)"
    and st: "\<forall>k. filter (\<lambda>x. f x = k) ins = filter (\<lambda>x. f x = k) (pre @ [m])"
    by blast
  from Cons.IH [OF so ne]
  obtain srt where srt: "insertion_loop (by_key f) 0 (length ins) (length ins + length mid)
      (ins @ mid @ post) = Some (srt @ post)"
    "mset srt = mset ins + mset mid" "sorted (map f srt)"
    and st': "\<forall>k. filter (\<lambda>x. f x = k) srt = filter (\<lambda>x. f x = k) (ins @ mid)"
    by blast
  from st st' have "\<forall>k. filter (\<lambda>x. f x = k) srt = filter (\<lambda>x. f x = k) (pre @ m # mid)"
    by simp
  moreover have "insertion_loop (by_key f) 0 (length pre) (length pre + length (m # mid))
      (pre @ (m # mid) @ post) = Some (srt @ post)"
    using step first cur len srt(1) by (subst insertion_loop.simps) simp
  moreover have "mset srt = mset pre + mset (m # mid)"
    using srt(2) m by simp
  ultimately show ?case
    using srt(3) by blast
qed

lemma insertion_sort_prefix:
  assumes "k \<le> length xs"
  shows "\<exists>srt. insertion_sort (by_key f) 0 k xs = Some (srt @ drop k xs) \<and>
           mset srt = mset (take k xs) \<and> sorted (map f srt) \<and>
           (\<forall>a. filter (\<lambda>x. f x = a) srt = filter (\<lambda>x. f x = a) (take k xs))"
proof (cases k)
  case 0
  then show ?thesis by (simp add: insertion_sort_def)
next
  case (Suc n)
  with assms obtain x rest where xs: "xs = x # rest" and n: "n \<le> length rest"
    by (cases xs) auto
  from n have len: "length (take n rest) = n" by simp
  from insertion_loop_sorted [of f "[x]" "take n rest" "drop n rest"]
  obtain srt where "insertion_loop (by_key f) 0 (length [x]) (length [x] + length (take n rest))
      ([x] @ take n rest @ drop n rest) = Some (srt @ drop n rest)"
    "mset srt = mset [x] + mset (take n rest)" "sorted (map f srt)"
    "\<forall>a. filter (\<lambda>x. f x = a) srt = filter (\<lambda>x. f x = a) ([x] @ take n rest)"
    by auto
  then have "insertion_loop (by_key f) 0 1 (Suc n) (x # rest) = Some (srt @ drop n rest)"
    "mset srt = mset [x] + mset (take n rest)" "sorted (map f srt)"
    "\<forall>a. filter (\<lambda>x. f x = a) srt = filter (\<lambda>x. f x = a) (x # take n rest)"
    unfolding len by simp_all
  with Suc xs show ?thesis
    by (simp add: insertion_sort_def)
qed

lemma unguarded_insertion_sort_sorted:
  assumes "sorted (map f pre)" and "pre \<noteq> []" and "\<forall>x \<in> set mid. f (hd pre) \<le> f x"
  shows "\<exists>srt. unguarded_insertion_sort (by_key f) (length pre) (length pre + length mid)
             (pre @ mid @ post) = Some (srt @ post) \<and>
           mset srt = mset pre + mset mid \<and> sorted (map f srt)"
  using assms
proof (induction mid arbitrary: pre)
  case Nil
  then show ?case
    by (subst unguarded_insertion_sort.simps) simp
next
  case (Cons m mid)
  from Cons.prems(3) have "f (hd pre) \<le> f m" by simp
  from unguarded_linear_insert_sorted [OF Cons.prems(1,2) this, of "mid @ post"]
  obtain ins where step: "unguarded_linear_insert (by_key f) (length pre)
      (pre @ m # mid @ post) = Some (ins @ mid @ post)"
    and m: "mset ins = add_mset m (mset pre)" and so: "sorted (map f ins)"
    and hd: "hd ins = hd pre"
    by blast
  from m have ne: "ins \<noteq> []" and len: "length ins = Suc (length pre)"
    by (auto dest: mset_add_length)
  from Cons.prems(3) hd have "\<forall>x \<in> set mid. f (hd ins) \<le> f x" by simp
  from Cons.IH [OF so ne this]
  obtain srt where "unguarded_insertion_sort (by_key f) (length ins) (length ins + length mid)
      (ins @ mid @ post) = Some (srt @ post)"
    "mset srt = mset ins + mset mid" "sorted (map f srt)"
    by blast
  with step m len show ?case
    by (subst unguarded_insertion_sort.simps) (auto intro!: exI [of _ srt])
qed

lemma final_insertion_sort_sorted:
  assumes "length xs > S_threshold \<longrightarrow>
      (\<exists>m \<in> set (take S_threshold xs). \<forall>x \<in> set xs. f m \<le> f x)"
  shows "\<exists>ys. final_insertion_sort (by_key f) xs = Some ys \<and> mset ys = mset xs \<and>
           sorted (map f ys)"
proof (cases "length xs > S_threshold")
  case False
  from insertion_sort_prefix [of "length xs" xs f] False show ?thesis
    by (auto simp: final_insertion_sort_def)
next
  case True
  with assms obtain m where m: "m \<in> set (take S_threshold xs)"
    and least: "\<forall>x \<in> set xs. f m \<le> f x"
    by blast
  from True insertion_sort_prefix [of S_threshold xs f]
  obtain srt where first: "insertion_sort (by_key f) 0 S_threshold xs =
      Some (srt @ drop S_threshold xs)"
    and ms: "mset srt = mset (take S_threshold xs)" and so: "sorted (map f srt)"
    by auto
  from ms m have "m \<in> set srt" by (metis set_mset_mset)
  then have ne: "srt \<noteq> []" by auto
  from ms True have len: "length srt = S_threshold"
    by (auto dest: mset_eq_length)
  have "f (hd srt) \<le> f m"
    using so \<open>m \<in> set srt\<close> ne by (cases srt) auto
  with least have "\<forall>x \<in> set (drop S_threshold xs). f (hd srt) \<le> f x"
    by (meson in_set_dropD order_trans)
  from unguarded_insertion_sort_sorted [OF so ne this, of "[]"]
  obtain ys where "unguarded_insertion_sort (by_key f) (length srt)
      (length srt + length (drop S_threshold xs)) (srt @ drop S_threshold xs) = Some ys"
    "mset ys = mset srt + mset (drop S_threshold xs)" "sorted (map f ys)"
    by auto
  moreover have "mset srt + mset (drop S_threshold xs) = mset xs"
    using ms by (metis append_take_drop_id mset_append)
  ultimately show ?thesis
    using True first len by (auto simp: final_insertion_sort_def)
qed

subsection \<open>The library's sort: partition\<close>

lemma iter_swap_Some:
  "i < length xs \<Longrightarrow> j < length xs \<Longrightarrow> iter_swap i j xs = Some (xs[i := xs ! j, j := xs ! i])"
  by (simp add: iter_swap_def)

lemma mset_iter_swap:
  "i < length xs \<Longrightarrow> j < length xs \<Longrightarrow> mset (xs[i := xs ! j, j := xs ! i]) = mset xs"
  using mset_swap [of j xs i] by simp

lemma swap_to_front:
  assumes "r < length xs" and "w < length xs" and "r \<noteq> w" and "0 < w" and "0 < r"
    and "f (xs ! r) \<le> f (xs ! w)"
  shows "\<exists>ys. iter_swap 0 r xs = Some ys \<and> mset ys = mset xs \<and> length ys = length xs \<and>
           (\<exists>j. 1 \<le> j \<and> j < length ys \<and> f (ys ! 0) \<le> f (ys ! j))"
proof -
  let ?ys = "xs[0 := xs ! r, r := xs ! 0]"
  from assms have "iter_swap 0 r xs = Some ?ys"
    by (intro iter_swap_Some) auto
  moreover from assms have "mset ?ys = mset xs"
    by (intro mset_iter_swap) auto
  moreover from assms have "0 < length xs" by auto
  with assms have "?ys ! 0 = xs ! r" "?ys ! w = xs ! w"
    by simp_all
  with assms have "1 \<le> w \<and> w < length ?ys \<and> f (?ys ! 0) \<le> f (?ys ! w)"
    by simp
  ultimately show ?thesis by (intro exI [of _ ?ys]) auto
qed

lemma move_median_to_first_sentinel:
  assumes "3 < length xs"
  shows "\<exists>ys. move_median_to_first (by_key f) 0 1 (length xs div 2) (length xs - 1) xs = Some ys \<and>
           mset ys = mset xs \<and> length ys = length xs \<and>
           (\<exists>j. 1 \<le> j \<and> j < length ys \<and> f (ys ! 0) \<le> f (ys ! j))"
proof -
  let ?a = "1 :: nat" and ?b = "length xs div 2" and ?c = "length xs - 1"
  from assms have bounds: "?a < length xs" "?b < length xs" "?c < length xs"
    "?a \<noteq> ?b" "?b \<noteq> ?c" "?a \<noteq> ?c" "0 < ?a" "0 < ?b" "0 < ?c"
    by auto
  note sw = swap_to_front [of _ xs _ f]
  consider
    (1) "f (xs ! ?a) < f (xs ! ?b)" "f (xs ! ?b) < f (xs ! ?c)"
  | (2) "f (xs ! ?a) < f (xs ! ?b)" "\<not> f (xs ! ?b) < f (xs ! ?c)" "f (xs ! ?a) < f (xs ! ?c)"
  | (3) "f (xs ! ?a) < f (xs ! ?b)" "\<not> f (xs ! ?b) < f (xs ! ?c)" "\<not> f (xs ! ?a) < f (xs ! ?c)"
  | (4) "\<not> f (xs ! ?a) < f (xs ! ?b)" "f (xs ! ?a) < f (xs ! ?c)"
  | (5) "\<not> f (xs ! ?a) < f (xs ! ?b)" "\<not> f (xs ! ?a) < f (xs ! ?c)" "f (xs ! ?b) < f (xs ! ?c)"
  | (6) "\<not> f (xs ! ?a) < f (xs ! ?b)" "\<not> f (xs ! ?a) < f (xs ! ?c)" "\<not> f (xs ! ?b) < f (xs ! ?c)"
    by blast
  then show ?thesis
  proof cases
    case 1
    with bounds sw [of ?b ?c] show ?thesis
      by (simp add: move_median_to_first_def by_key_app)
  next
    case 2
    with bounds sw [of ?c ?b] show ?thesis
      by (simp add: move_median_to_first_def by_key_app)
  next
    case 3
    with bounds sw [of ?a ?b] show ?thesis
      by (simp add: move_median_to_first_def by_key_app)
  next
    case 4
    with bounds sw [of ?a ?c] show ?thesis
      by (simp add: move_median_to_first_def by_key_app)
  next
    case 5
    with bounds sw [of ?c ?a] show ?thesis
      by (simp add: move_median_to_first_def by_key_app)
  next
    case 6
    with bounds sw [of ?b ?a] show ?thesis
      by (simp add: move_median_to_first_def by_key_app)
  qed
qed

lemma advance_stops:
  assumes "i \<le> j" and "j < length xs" and "p < length xs" and "\<not> f (xs ! j) < f (xs ! p)"
  shows "\<exists>i1. advance (by_key f) p i xs = Some i1 \<and> i \<le> i1 \<and> i1 \<le> j \<and>
           \<not> f (xs ! i1) < f (xs ! p) \<and> (\<forall>k. i \<le> k \<and> k < i1 \<longrightarrow> f (xs ! k) < f (xs ! p))"
  using assms(1)
proof (induction "j - i" arbitrary: i)
  case 0
  with assms show ?case
    by (subst advance.simps) (auto simp: by_key_app)
next
  case (Suc d)
  then have i: "i < length xs" using assms(2) by simp
  show ?case
  proof (cases "f (xs ! i) < f (xs ! p)")
    case False
    with i assms(3) Suc.prems show ?thesis
      by (subst advance.simps) (auto simp: by_key_app)
  next
    case True
    from Suc have "d = j - (i + 1)" "i + 1 \<le> j" by auto
    from Suc.hyps(1) [OF this]
    obtain i1 where "advance (by_key f) p (i + 1) xs = Some i1" "i + 1 \<le> i1" "i1 \<le> j"
      "\<not> f (xs ! i1) < f (xs ! p)" "\<forall>k. i + 1 \<le> k \<and> k < i1 \<longrightarrow> f (xs ! k) < f (xs ! p)"
      by blast
    moreover have "\<forall>k. i \<le> k \<and> k < i1 \<longrightarrow> f (xs ! k) < f (xs ! p)"
    proof (intro allI impI)
      fix k assume "i \<le> k \<and> k < i1"
      then have "k = i \<or> (i + 1 \<le> k \<and> k < i1)" by auto
      with True calculation(5) show "f (xs ! k) < f (xs ! p)" by blast
    qed
    ultimately show ?thesis
      using True i assms(3)
      by (subst advance.simps) (auto simp: by_key_app)
  qed
qed

lemma retreat_stops:
  assumes "l < length xs" and "p < length xs" and "j \<le> l" and "\<not> f (xs ! p) < f (xs ! j)"
  shows "\<exists>l1. retreat (by_key f) p l xs = Some l1 \<and> j \<le> l1 \<and> l1 \<le> l \<and>
           \<not> f (xs ! p) < f (xs ! l1) \<and> (\<forall>k. l1 < k \<and> k \<le> l \<longrightarrow> f (xs ! p) < f (xs ! k))"
  using assms(1,3)
proof (induction l)
  case 0
  with assms show ?case by (auto simp: by_key_app)
next
  case (Suc l)
  show ?case
  proof (cases "f (xs ! p) < f (xs ! Suc l)")
    case False
    then have "\<not> by_key f (xs ! p) (xs ! Suc l)" by (simp add: by_key_app)
    with False Suc.prems assms(2) show ?thesis by auto
  next
    case True
    then have c: "by_key f (xs ! p) (xs ! Suc l)" by (simp add: by_key_app)
    from True assms(4) have "j \<noteq> Suc l" by auto
    with Suc.prems have "l < length xs" "j \<le> l" by auto
    from Suc.IH [OF this]
    obtain l1 where "retreat (by_key f) p l xs = Some l1" "j \<le> l1" "l1 \<le> l"
      "\<not> f (xs ! p) < f (xs ! l1)" "\<forall>k. l1 < k \<and> k \<le> l \<longrightarrow> f (xs ! p) < f (xs ! k)"
      by blast
    moreover have "\<forall>k. l1 < k \<and> k \<le> Suc l \<longrightarrow> f (xs ! p) < f (xs ! k)"
    proof (intro allI impI)
      fix k assume "l1 < k \<and> k \<le> Suc l"
      then have "k = Suc l \<or> (l1 < k \<and> k \<le> l)" by auto
      with True calculation(5) show "f (xs ! p) < f (xs ! k)" by blast
    qed
    ultimately show ?thesis
      using c Suc.prems assms(2) by auto
  qed
qed

lemma unguarded_partition_splits:
  assumes "1 \<le> firstIdx" and "firstIdx \<le> lastIdx" and "lastIdx \<le> length xs"
    and "\<forall>i. 1 \<le> i \<and> i < firstIdx \<longrightarrow> f (xs ! i) \<le> f (xs ! 0)"
    and "\<forall>j. lastIdx \<le> j \<and> j < length xs \<longrightarrow> f (xs ! 0) \<le> f (xs ! j)"
    and "\<exists>j. firstIdx \<le> j \<and> j < length xs \<and> f (xs ! 0) \<le> f (xs ! j)"
  shows "\<exists>ys cut. unguarded_partition (by_key f) firstIdx lastIdx 0 xs = Some (ys, cut) \<and>
           mset ys = mset xs \<and> length ys = length xs \<and> ys ! 0 = xs ! 0 \<and>
           1 \<le> cut \<and> cut < length xs \<and>
           (\<forall>i. i < cut \<longrightarrow> f (ys ! i) \<le> f (ys ! 0)) \<and>
           (\<forall>j. cut \<le> j \<and> j < length ys \<longrightarrow> f (ys ! 0) \<le> f (ys ! j))"
  using assms
proof (induction "lastIdx - firstIdx" arbitrary: firstIdx lastIdx xs rule: less_induct)
  case less
  from less.prems(6) obtain s where s: "firstIdx \<le> s" "s < length xs" "f (xs ! 0) \<le> f (xs ! s)"
    by blast
  then have pos: "0 < length xs" by auto
  from s have "\<not> f (xs ! s) < f (xs ! 0)" by auto
  from advance_stops [OF s(1,2) pos this]
  obtain first1 where a: "advance (by_key f) 0 firstIdx xs = Some first1"
    and a1: "firstIdx \<le> first1" "first1 \<le> s" "\<not> f (xs ! first1) < f (xs ! 0)"
    and a2: "\<forall>k. firstIdx \<le> k \<and> k < first1 \<longrightarrow> f (xs ! k) < f (xs ! 0)"
    by blast
  from less.prems have l0: "lastIdx \<noteq> 0" "lastIdx - 1 < length xs" by auto
  have "\<not> f (xs ! 0) < f (xs ! 0)" by simp
  from retreat_stops [of "lastIdx - 1" xs 0 0 f] l0(2) pos
  obtain last1 where r: "retreat (by_key f) 0 (lastIdx - 1) xs = Some last1"
    and r1: "last1 \<le> lastIdx - 1" "\<not> f (xs ! 0) < f (xs ! last1)"
    and r2: "\<forall>k. last1 < k \<and> k \<le> lastIdx - 1 \<longrightarrow> f (xs ! 0) < f (xs ! k)"
    by blast
  show ?case
  proof (cases "first1 < last1")
    case False
    have run: "unguarded_partition (by_key f) firstIdx lastIdx 0 xs = Some (xs, first1)"
      using a r l0 False by (subst unguarded_partition.simps) simp
    have low: "\<forall>i. i < first1 \<longrightarrow> f (xs ! i) \<le> f (xs ! 0)"
    proof (intro allI impI)
      fix i assume "i < first1"
      then consider "i = 0" | "1 \<le> i \<and> i < firstIdx" | "firstIdx \<le> i \<and> i < first1"
        by linarith
      then show "f (xs ! i) \<le> f (xs ! 0)"
        using less.prems(4) a2 by cases (auto simp: less_imp_le)
    qed
    have high: "\<forall>j. first1 \<le> j \<and> j < length xs \<longrightarrow> f (xs ! 0) \<le> f (xs ! j)"
    proof (intro allI impI)
      fix j assume j: "first1 \<le> j \<and> j < length xs"
      with False consider "j = first1" | "last1 < j \<and> j \<le> lastIdx - 1" | "lastIdx \<le> j"
        by linarith
      then show "f (xs ! 0) \<le> f (xs ! j)"
        using less.prems(5) r2 a1 j by cases (auto simp: less_imp_le)
    qed
    from run low high a1 s less.prems(1) show ?thesis
      by (intro exI [of _ xs] exI [of _ first1]) auto
  next
    case True
    let ?ys = "xs[first1 := xs ! last1, last1 := xs ! first1]"
    from True r1 l0 have b: "first1 < length xs" "last1 < length xs" by auto
    then have sw: "iter_swap first1 last1 xs = Some ?ys"
      by (rule iter_swap_Some)
    from b have ms: "mset ?ys = mset xs" by (rule mset_iter_swap)
    from less.prems(1) a1 True have z: "?ys ! 0 = xs ! 0" by simp
    have m: "last1 - (first1 + 1) < lastIdx - firstIdx"
      using True r1 a1 l0 by linarith
    have p1: "1 \<le> first1 + 1" and p2: "first1 + 1 \<le> last1" and p3: "last1 \<le> length ?ys"
      using True b by auto
    have p4: "\<forall>i. 1 \<le> i \<and> i < first1 + 1 \<longrightarrow> f (?ys ! i) \<le> f (?ys ! 0)"
    proof (intro allI impI)
      fix i assume i: "1 \<le> i \<and> i < first1 + 1"
      then consider "i = first1" | "1 \<le> i \<and> i < firstIdx" | "firstIdx \<le> i \<and> i < first1"
        by linarith
      then show "f (?ys ! i) \<le> f (?ys ! 0)"
      proof cases
        case 1
        with True b r1 show ?thesis unfolding z by simp
      next
        case 2
        with a1 True have "?ys ! i = xs ! i" by simp
        with 2 less.prems(4) show ?thesis unfolding z by simp
      next
        case 3
        with True have "?ys ! i = xs ! i" by simp
        with 3 a2 show ?thesis unfolding z by (simp add: less_imp_le)
      qed
    qed
    have p5: "\<forall>j. last1 \<le> j \<and> j < length ?ys \<longrightarrow> f (?ys ! 0) \<le> f (?ys ! j)"
    proof (intro allI impI)
      fix j assume j: "last1 \<le> j \<and> j < length ?ys"
      then consider "j = last1" | "last1 < j \<and> j \<le> lastIdx - 1" | "lastIdx \<le> j"
        by linarith
      then show "f (?ys ! 0) \<le> f (?ys ! j)"
      proof cases
        case 1
        with True b a1 show ?thesis unfolding z by simp
      next
        case 2
        with True have "?ys ! j = xs ! j" by simp
        with 2 r2 show ?thesis unfolding z by (simp add: less_imp_le)
      next
        case 3
        with r1 l0 True have "?ys ! j = xs ! j" by simp
        with 3 j less.prems(5) show ?thesis unfolding z by simp
      qed
    qed
    have p6: "\<exists>j. first1 + 1 \<le> j \<and> j < length ?ys \<and> f (?ys ! 0) \<le> f (?ys ! j)"
      using True b a1 unfolding z by (intro exI [of _ last1]) simp
    from less.hyps [OF m p1 p2 p3 p4 p5 p6]
    obtain zs cut where "unguarded_partition (by_key f) (first1 + 1) last1 0 ?ys = Some (zs, cut)"
      "mset zs = mset ?ys" "length zs = length ?ys" "zs ! 0 = ?ys ! 0"
      "1 \<le> cut" "cut < length ?ys"
      "\<forall>i. i < cut \<longrightarrow> f (zs ! i) \<le> f (zs ! 0)"
      "\<forall>j. cut \<le> j \<and> j < length zs \<longrightarrow> f (zs ! 0) \<le> f (zs ! j)"
      by blast
    moreover have "unguarded_partition (by_key f) firstIdx lastIdx 0 xs =
        unguarded_partition (by_key f) (first1 + 1) last1 0 ?ys"
      using a r l0 True sw by (subst unguarded_partition.simps) simp
    ultimately show ?thesis
      using ms z by (intro exI [of _ zs] exI [of _ cut]) simp
  qed
qed

lemma unguarded_partition_pivot_splits:
  assumes "3 < length xs"
  shows "\<exists>ys cut. unguarded_partition_pivot (by_key f) xs = Some (ys, cut) \<and>
           mset ys = mset xs \<and> 0 < cut \<and> cut < length xs \<and>
           (\<forall>a \<in> set (take cut ys). \<forall>b \<in> set (drop cut ys). f a \<le> f b)"
proof -
  from move_median_to_first_sentinel [OF assms, of f]
  obtain xs1 where med: "move_median_to_first (by_key f) 0 1 (length xs div 2) (length xs - 1) xs =
      Some xs1"
    and ms1: "mset xs1 = mset xs" and len1: "length xs1 = length xs"
    and sent: "\<exists>j. 1 \<le> j \<and> j < length xs1 \<and> f (xs1 ! 0) \<le> f (xs1 ! j)"
    by blast
  have "\<exists>ys cut. unguarded_partition (by_key f) 1 (length xs1) 0 xs1 = Some (ys, cut) \<and>
           mset ys = mset xs1 \<and> length ys = length xs1 \<and> ys ! 0 = xs1 ! 0 \<and>
           1 \<le> cut \<and> cut < length xs1 \<and>
           (\<forall>i. i < cut \<longrightarrow> f (ys ! i) \<le> f (ys ! 0)) \<and>
           (\<forall>j. cut \<le> j \<and> j < length ys \<longrightarrow> f (ys ! 0) \<le> f (ys ! j))"
    using assms len1 sent by (intro unguarded_partition_splits) auto
  then obtain ys cut where part: "unguarded_partition (by_key f) 1 (length xs1) 0 xs1 = Some (ys, cut)"
    and ms: "mset ys = mset xs1" and len: "length ys = length xs1"
    and cut: "1 \<le> cut" "cut < length xs1"
    and low: "\<forall>i. i < cut \<longrightarrow> f (ys ! i) \<le> f (ys ! 0)"
    and high: "\<forall>j. cut \<le> j \<and> j < length ys \<longrightarrow> f (ys ! 0) \<le> f (ys ! j)"
    by blast
  have "\<forall>a \<in> set (take cut ys). \<forall>b \<in> set (drop cut ys). f a \<le> f b"
  proof (intro ballI)
    fix a b assume "a \<in> set (take cut ys)" and "b \<in> set (drop cut ys)"
    then obtain i j where "i < cut" "a = ys ! i" "j < length ys - cut" "b = ys ! (cut + j)"
      using cut len by (auto simp: in_set_conv_nth)
    with low high have "f a \<le> f (ys ! 0)" "f (ys ! 0) \<le> f b" by auto
    then show "f a \<le> f b" by (rule order_trans)
  qed
  moreover have "unguarded_partition_pivot (by_key f) xs = Some (ys, cut)"
    using med part assms len1 by (auto simp: unguarded_partition_pivot_def)
  ultimately show ?thesis
    using ms ms1 cut len1 by (intro exI [of _ ys] exI [of _ cut]) simp
qed

subsection \<open>The library's sort: heap\<close>

lemma heap_butD:
  "heap_but f p len h xs \<Longrightarrow> 0 < i \<Longrightarrow> i < len \<Longrightarrow> p \<le> (i - 1) div 2 \<Longrightarrow> i \<noteq> h \<Longrightarrow>
     (i - 1) div 2 \<noteq> h \<Longrightarrow> f (xs ! i) \<le> f (xs ! ((i - 1) div 2))"
  by (simp add: heap_but_def)

lemma heap_fromD:
  "heap_from f p len xs \<Longrightarrow> 0 < i \<Longrightarrow> i < len \<Longrightarrow> p \<le> (i - 1) div 2 \<Longrightarrow>
     f (xs ! i) \<le> f (xs ! ((i - 1) div 2))"
  by (simp add: heap_from_def)

lemma under_grandD:
  "under_grand f p len h xs \<Longrightarrow> p < h \<Longrightarrow> 0 < c \<Longrightarrow> c < len \<Longrightarrow> (c - 1) div 2 = h \<Longrightarrow>
     f (xs ! c) \<le> f (xs ! ((h - 1) div 2))"
  by (simp add: under_grand_def)

lemma under_valD:
  "under_val f len h v xs \<Longrightarrow> 0 < c \<Longrightarrow> c < len \<Longrightarrow> (c - 1) div 2 = h \<Longrightarrow> f (xs ! c) \<le> f v"
  by (simp add: under_val_def)

lemma below_ge: "below p h \<Longrightarrow> p \<le> h"
  by (induction rule: below.induct) auto

lemma below_parent:
  assumes "below p h" and "h \<noteq> p"
  shows "below p ((h - 1) div 2)"
  using assms by (cases rule: below.cases) auto

lemma below_parent_ge: "below p h \<Longrightarrow> h \<noteq> p \<Longrightarrow> p \<le> (h - 1) div 2"
  by (rule below_ge) (rule below_parent)

lemma mset_move_hole:
  assumes "h < length xs" and "c < length xs" and "h \<noteq> c"
  shows "mset (xs[h := xs ! c, c := v]) = mset (xs[h := v])"
proof -
  have "xs[h := xs ! c, c := v] = (xs[h := v])[h := (xs[h := v]) ! c, c := (xs[h := v]) ! h]"
    using assms by (simp add: list_update_swap)
  moreover have "mset ((xs[h := v])[h := (xs[h := v]) ! c, c := (xs[h := v]) ! h]) = mset (xs[h := v])"
    using assms by (intro mset_iter_swap) auto
  ultimately show ?thesis by simp
qed

lemma hole_down:
  assumes hb: "heap_but f p len h xs" and ug: "under_grand f p len h xs"
    and ph: "p \<le> h" and c: "0 < c" "c < len" "(c - 1) div 2 = h" and len: "len \<le> length xs"
    and big: "\<forall>s. 0 < s \<and> s < len \<and> (s - 1) div 2 = h \<longrightarrow> f (xs ! s) \<le> f (xs ! c)"
  shows "heap_but f p len c (xs[h := xs ! c])" and "under_grand f p len c (xs[h := xs ! c])"
proof -
  let ?ys = "xs[h := xs ! c]"
  from c have hc: "h < c" by arith
  with c len have hl: "h < length xs" by arith
  show "heap_but f p len c ?ys"
    unfolding heap_but_def
  proof (intro allI impI)
    fix i
    assume i: "0 < i \<and> i < len \<and> p \<le> (i - 1) div 2 \<and> i \<noteq> c \<and> (i - 1) div 2 \<noteq> c"
    consider "i = h" | "i \<noteq> h" "(i - 1) div 2 = h" | "i \<noteq> h" "(i - 1) div 2 \<noteq> h"
      by blast
    then show "f (?ys ! i) \<le> f (?ys ! ((i - 1) div 2))"
    proof cases
      case 1
      with i have "p < h" "(h - 1) div 2 \<noteq> h" by arith+
      with ug c have "f (xs ! c) \<le> f (xs ! ((h - 1) div 2))"
        by (intro under_grandD)
      with 1 hl \<open>(h - 1) div 2 \<noteq> h\<close> show ?thesis by simp
    next
      case 2
      with i big have "f (xs ! i) \<le> f (xs ! c)" by simp
      with 2 hl show ?thesis by simp
    next
      case 3
      with i hb have "f (xs ! i) \<le> f (xs ! ((i - 1) div 2))"
        by (intro heap_butD) auto
      with 3 show ?thesis by simp
    qed
  qed
  show "under_grand f p len c ?ys"
    unfolding under_grand_def
  proof (intro allI impI)
    fix g
    assume g: "0 < g \<and> g < len \<and> (g - 1) div 2 = c"
    with hc have "g \<noteq> h" "g \<noteq> c" by arith+
    moreover from hc ph have "p \<le> (g - 1) div 2" using g by arith
    ultimately have "f (xs ! g) \<le> f (xs ! ((g - 1) div 2))"
      using hb g hc by (intro heap_butD) auto
    with g have "f (xs ! g) \<le> f (xs ! c)" by simp
    with \<open>g \<noteq> h\<close> c hl show "f (?ys ! g) \<le> f (?ys ! ((c - 1) div 2))" by simp
  qed
qed

lemma hole_up:
  assumes hb: "heap_but f p len h xs" and ug: "under_grand f p len h xs"
    and uv: "under_val f len h v xs"
    and bel: "below p h" and ph: "p < h" and hl: "h < len" and len: "len \<le> length xs"
    and lt: "f (xs ! ((h - 1) div 2)) < f v"
  shows "heap_but f p len ((h - 1) div 2) (xs[h := xs ! ((h - 1) div 2)])"
    and "under_grand f p len ((h - 1) div 2) (xs[h := xs ! ((h - 1) div 2)])"
    and "under_val f len ((h - 1) div 2) v (xs[h := xs ! ((h - 1) div 2)])"
proof -
  let ?q = "(h - 1) div 2"
  let ?ys = "xs[h := xs ! ?q]"
  from ph have qh: "?q < h" by arith
  from hl len have hx: "h < length xs" by arith
  from bel ph have pq: "p \<le> ?q" by (intro below_parent_ge) auto
  from bel ph have bq: "below p ?q" by (intro below_parent) auto
  have child: "f (xs ! c) \<le> f (xs ! ?q)" if "0 < c" "c < len" "(c - 1) div 2 = ?q" "c \<noteq> h" for c
  proof -
    from hb that pq qh have "f (xs ! c) \<le> f (xs ! ((c - 1) div 2))"
      by (intro heap_butD) auto
    with that show ?thesis by simp
  qed
  show "heap_but f p len ?q ?ys"
    unfolding heap_but_def
  proof (intro allI impI)
    fix i
    assume i: "0 < i \<and> i < len \<and> p \<le> (i - 1) div 2 \<and> i \<noteq> ?q \<and> (i - 1) div 2 \<noteq> ?q"
    then have ih: "i \<noteq> h" by blast
    show "f (?ys ! i) \<le> f (?ys ! ((i - 1) div 2))"
    proof (cases "(i - 1) div 2 = h")
      case True
      with ug ph i have "f (xs ! i) \<le> f (xs ! ?q)"
        by (intro under_grandD) auto
      with True ih hx show ?thesis by simp
    next
      case False
      with i ih hb have "f (xs ! i) \<le> f (xs ! ((i - 1) div 2))"
        by (intro heap_butD) auto
      with False ih show ?thesis by simp
    qed
  qed
  show "under_grand f p len ?q ?ys"
    unfolding under_grand_def
  proof (intro impI allI)
    fix c
    assume "p < ?q" and c: "0 < c \<and> c < len \<and> (c - 1) div 2 = ?q"
    with bq have pp: "p \<le> (?q - 1) div 2" by (intro below_parent_ge) auto
    from \<open>p < ?q\<close> qh have ne: "(?q - 1) div 2 \<noteq> h" "?q \<noteq> h" "0 < ?q" "?q < len"
      using hl by arith+
    with hb pp have up: "f (xs ! ?q) \<le> f (xs ! ((?q - 1) div 2))"
      by (intro heap_butD) auto
    show "f (?ys ! c) \<le> f (?ys ! ((?q - 1) div 2))"
    proof (cases "c = h")
      case True
      with up ne hx show ?thesis by simp
    next
      case False
      with child [of c] c have "f (xs ! c) \<le> f (xs ! ?q)" by simp
      from this up have "f (xs ! c) \<le> f (xs ! ((?q - 1) div 2))" by (rule order_trans)
      with False ne show ?thesis by simp
    qed
  qed
  show "under_val f len ?q v ?ys"
    unfolding under_val_def
  proof (intro impI allI)
    fix c
    assume c: "0 < c \<and> c < len \<and> (c - 1) div 2 = ?q"
    show "f (?ys ! c) \<le> f v"
    proof (cases "c = h")
      case True
      with lt hx show ?thesis by simp
    next
      case False
      with child [of c] c have "f (xs ! c) \<le> f (xs ! ?q)" by simp
      with lt have "f (xs ! c) \<le> f v" by simp
      with False show ?thesis by simp
    qed
  qed
qed

lemma hole_fill:
  assumes hb: "heap_but f p len h xs" and uv: "under_val f len h v xs"
    and hl: "h < len" and len: "len \<le> length xs"
    and top: "p < h \<longrightarrow> f v \<le> f (xs ! ((h - 1) div 2))" and ph: "p \<le> h"
  shows "heap_from f p len (xs[h := v])"
  unfolding heap_from_def
proof (intro allI impI)
  fix i
  assume i: "0 < i \<and> i < len \<and> p \<le> (i - 1) div 2"
  from hl len have hx: "h < length xs" by arith
  consider "i = h" | "i \<noteq> h" "(i - 1) div 2 = h" | "i \<noteq> h" "(i - 1) div 2 \<noteq> h"
    by blast
  then show "f (xs[h := v] ! i) \<le> f (xs[h := v] ! ((i - 1) div 2))"
  proof cases
    case 1
    with i have "p < h" "(h - 1) div 2 \<noteq> h" by arith+
    with top 1 hx show ?thesis by simp
  next
    case 2
    with uv i have "f (xs ! i) \<le> f v" by (intro under_valD) auto
    with 2 hx show ?thesis by simp
  next
    case 3
    with hb i have "f (xs ! i) \<le> f (xs ! ((i - 1) div 2))" by (intro heap_butD) auto
    with 3 show ?thesis by simp
  qed
qed

lemma push_heap_heap:
  assumes "heap_but f p len h xs" and "under_grand f p len h xs" and "under_val f len h v xs"
    and "below p h" and "h < len" and "len \<le> length xs"
  shows "\<exists>ys. push_heap (by_key f) h p v xs = Some ys \<and> length ys = length xs \<and>
           drop len ys = drop len xs \<and> heap_from f p len ys \<and> mset ys = mset (xs[h := v])"
  using assms
proof (induction h arbitrary: xs rule: less_induct)
  case (less h)
  from less.prems have hx: "h < length xs" by arith
  from less.prems(4) have ph: "p \<le> h" by (rule below_ge)
  let ?q = "(h - 1) div 2"
  show ?case
  proof (cases "p < h \<and> f (xs ! ?q) < f v")
    case False
    then have "p < h \<longrightarrow> f v \<le> f (xs ! ?q)" by auto
    from hole_fill [OF less.prems(1,3,5,6) this ph]
    have "heap_from f p len (xs[h := v])" .
    moreover have "push_heap (by_key f) h p v xs = Some (xs[h := v])"
      using False hx by (subst push_heap.simps) (auto simp: by_key_app Let_def)
    ultimately show ?thesis
      using less.prems(5) by simp
  next
    case True
    then have qh: "?q < h" by arith
    let ?ys = "xs[h := xs ! ?q]"
    from True have lt: "f (xs ! ?q) < f v" and p: "p < h" by simp_all
    note up = hole_up [OF less.prems(1,2,3,4) p less.prems(5,6) lt]
    from less.prems(4) p have bq: "below p ?q" by (intro below_parent) auto
    from qh less.prems have ql: "?q < len" "len \<le> length ?ys" by auto
    from less.IH [OF qh up bq ql]
    obtain zs where "push_heap (by_key f) ?q p v ?ys = Some zs" "length zs = length ?ys"
      "drop len zs = drop len ?ys" "heap_from f p len zs" "mset zs = mset (?ys[?q := v])"
      by blast
    moreover have "push_heap (by_key f) h p v xs = push_heap (by_key f) ?q p v ?ys"
      using True hx qh by (subst push_heap.simps) (auto simp: by_key_app Let_def)
    moreover have "mset (?ys[?q := v]) = mset (xs[h := v])"
      using hx qh by (intro mset_move_hole) auto
    ultimately show ?thesis
      using less.prems(5) by simp
  qed
qed

lemma sift_hole_down:
  assumes "heap_but f p len h xs" and "under_grand f p len h xs"
    and "below p h" and "h < len" and "len \<le> length xs"
  shows "\<exists>ys h'. sift_hole (by_key f) len h xs = Some (ys, h') \<and> length ys = length xs \<and>
           drop len ys = drop len xs \<and> below p h' \<and> h' < len \<and> (len - 1) div 2 \<le> h' \<and>
           heap_but f p len h' ys \<and> under_grand f p len h' ys \<and>
           (\<forall>v. mset (ys[h' := v]) = mset (xs[h := v]))"
  using assms
proof (induction "len - h" arbitrary: h xs rule: less_induct)
  case less
  from less.prems(3) have ph: "p \<le> h" by (rule below_ge)
  show ?case
  proof (cases "h < (len - 1) div 2")
    case False
    then have "sift_hole (by_key f) len h xs = Some (xs, h)"
      by (subst sift_hole.simps) simp
    with False less.prems show ?thesis by simp
  next
    case True
    let ?r = "2 * (h + 1)"
    let ?c = "if f (xs ! ?r) < f (xs ! (?r - 1)) then ?r - 1 else ?r"
    let ?ys = "xs[h := xs ! ?c]"
    from True have r: "?r < len" by arith
    with less.prems have rx: "?r < length xs" "?r - 1 < length xs" "h < length xs" by arith+
    have c: "0 < ?c" "?c < len" "(?c - 1) div 2 = h"
      using r by auto
    have big: "\<forall>s. 0 < s \<and> s < len \<and> (s - 1) div 2 = h \<longrightarrow> f (xs ! s) \<le> f (xs ! ?c)"
    proof (intro allI impI)
      fix s assume "0 < s \<and> s < len \<and> (s - 1) div 2 = h"
      then have "s = ?r \<or> s = ?r - 1" by arith
      then show "f (xs ! s) \<le> f (xs ! ?c)" by auto
    qed
    note down = hole_down [OF less.prems(1,2) ph c less.prems(5) big]
    have bc: "below p ?c"
    proof (cases "f (xs ! ?r) < f (xs ! (?r - 1))")
      case True
      moreover have "?r - 1 = 2 * h + 1" by simp
      ultimately show ?thesis using below_left [OF less.prems(3)] by simp
    next
      case False
      moreover have "?r = 2 * h + 2" by simp
      ultimately show ?thesis using below_right [OF less.prems(3)] by simp
    qed
    have m: "len - ?c < len - h" using c r by auto
    have "len \<le> length ?ys" using less.prems(5) by simp
    from less.hyps [OF m down bc c(2) this]
    obtain zs h' where "sift_hole (by_key f) len ?c ?ys = Some (zs, h')" "length zs = length ?ys"
      "drop len zs = drop len ?ys" "below p h'" "h' < len" "(len - 1) div 2 \<le> h'"
      "heap_but f p len h' zs" "under_grand f p len h' zs"
      "\<forall>v. mset (zs[h' := v]) = mset (?ys[?c := v])"
      by blast
    moreover have "sift_hole (by_key f) len h xs = sift_hole (by_key f) len ?c ?ys"
      using True rx by (subst sift_hole.simps) (simp add: by_key_app Let_def)
    moreover have "mset (?ys[?c := v]) = mset (xs[h := v])" for v
      using rx by (intro mset_move_hole) auto
    ultimately show ?thesis
      using less.prems(4) by (intro exI [of _ zs] exI [of _ h']) simp
  qed
qed

lemma adjust_heap_heap:
  assumes "heap_from f (Suc p) len xs" and "p < len" and "len \<le> length xs"
  shows "\<exists>ys. adjust_heap (by_key f) p len v xs = Some ys \<and> length ys = length xs \<and>
           drop len ys = drop len xs \<and> heap_from f p len ys \<and> mset ys = mset (xs[p := v])"
proof -
  have hb: "heap_but f p len p xs"
    using assms(1) unfolding heap_but_def heap_from_def
    by (metis Suc_leI le_neq_implies_less)
  have ug: "under_grand f p len p xs"
    by (simp add: under_grand_def)
  from sift_hole_down [OF hb ug below_refl assms(2,3)]
  obtain ys h where sift: "sift_hole (by_key f) len p xs = Some (ys, h)"
    and ly: "length ys = length xs" and dy: "drop len ys = drop len xs"
    and bh: "below p h" and hl: "h < len" and low: "(len - 1) div 2 \<le> h"
    and hby: "heap_but f p len h ys" and ugy: "under_grand f p len h ys"
    and my: "\<forall>v. mset (ys[h := v]) = mset (xs[p := v])"
    by blast
  from assms(3) ly have leny: "len \<le> length ys" by simp
  from bh have ph: "p \<le> h" by (rule below_ge)
  show ?thesis
  proof (cases "even len \<and> h = (len - 2) div 2")
    case True
    let ?c = "2 * (h + 1) - 1"
    let ?zs = "ys[h := ys ! ?c]"
    from True have ev: "len mod 2 = 0" "h = (len - 2) div 2"
      by (auto simp: even_iff_mod_2_eq_zero)
    with hl have c: "0 < ?c" "?c < len" "(?c - 1) div 2 = h"
      by arith+
    have big: "\<forall>s. 0 < s \<and> s < len \<and> (s - 1) div 2 = h \<longrightarrow> f (ys ! s) \<le> f (ys ! ?c)"
    proof (intro allI impI)
      fix s assume s: "0 < s \<and> s < len \<and> (s - 1) div 2 = h"
      with ev have "s = ?c" by arith
      then show "f (ys ! s) \<le> f (ys ! ?c)" by simp
    qed
    note down = hole_down [OF hby ugy ph c leny big]
    have uv: "under_val f len ?c v ?zs"
      unfolding under_val_def
    proof (intro allI impI)
      fix s assume "0 < s \<and> s < len \<and> (s - 1) div 2 = ?c"
      with ev hl have False by arith
      then show "f (?zs ! s) \<le> f v" ..
    qed
    have bc: "below p ?c"
      using below_left [OF bh] by simp
    from leny have "len \<le> length ?zs" by simp
    from push_heap_heap [OF down uv bc c(2) this]
    obtain ws where "push_heap (by_key f) ?c p v ?zs = Some ws" "length ws = length ?zs"
      "drop len ws = drop len ?zs" "heap_from f p len ws" "mset ws = mset (?zs[?c := v])"
      by blast
    moreover have "adjust_heap (by_key f) p len v xs = push_heap (by_key f) ?c p v ?zs"
      using sift True c hl leny by (simp add: adjust_heap_def)
    moreover have "mset (?zs[?c := v]) = mset (ys[h := v])"
      using c hl leny by (intro mset_move_hole) auto
    ultimately show ?thesis
      using my ly dy hl by simp
  next
    case False
    have uv: "under_val f len h v ys"
      unfolding under_val_def
    proof (intro allI impI)
      fix c assume "0 < c \<and> c < len \<and> (c - 1) div 2 = h"
      moreover have "len mod 2 = 0 \<longrightarrow> h \<noteq> (len - 2) div 2"
        using False by (auto simp: even_iff_mod_2_eq_zero)
      ultimately have False using low by arith
      then show "f (ys ! c) \<le> f v" ..
    qed
    from push_heap_heap [OF hby ugy uv bh hl leny]
    obtain ws where "push_heap (by_key f) h p v ys = Some ws" "length ws = length ys"
      "drop len ws = drop len ys" "heap_from f p len ws" "mset ws = mset (ys[h := v])"
      by blast
    moreover have "adjust_heap (by_key f) p len v xs = push_heap (by_key f) h p v ys"
      using sift False by (auto simp: adjust_heap_def)
    ultimately show ?thesis
      using my ly dy by simp
  qed
qed

lemma heap_root_max:
  assumes "heap_from f 0 len xs" and "i < len"
  shows "f (xs ! i) \<le> f (xs ! 0)"
  using assms(2)
proof (induction i rule: less_induct)
  case (less i)
  show ?case
  proof (cases "i = 0")
    case True
    then show ?thesis by simp
  next
    case False
    with less.prems assms(1) have "f (xs ! i) \<le> f (xs ! ((i - 1) div 2))"
      by (intro heap_fromD) auto
    moreover from False less.prems have "f (xs ! ((i - 1) div 2)) \<le> f (xs ! 0)"
      by (intro less.IH) arith+
    ultimately show ?thesis by (rule order_trans)
  qed
qed

lemma make_heap_loop_heap:
  assumes "heap_from f (Suc p) len xs" and "p < len" and "len \<le> length xs"
  shows "\<exists>ys. make_heap_loop (by_key f) len p xs = Some ys \<and> length ys = length xs \<and>
           heap_from f 0 len ys \<and> mset ys = mset xs"
  using assms
proof (induction p arbitrary: xs)
  case 0
  from adjust_heap_heap [OF 0, of "xs ! 0"]
  obtain ys where "adjust_heap (by_key f) 0 len (xs ! 0) xs = Some ys" "length ys = length xs"
    "heap_from f 0 len ys" "mset ys = mset (xs[0 := xs ! 0])"
    by blast
  moreover from 0 have "0 < length xs" by auto
  ultimately show ?case
    by (subst make_heap_loop.simps) simp
next
  case (Suc p)
  from Suc.prems have px: "Suc p < length xs" by simp
  from adjust_heap_heap [OF Suc.prems, of "xs ! Suc p"]
  obtain ys where ys: "adjust_heap (by_key f) (Suc p) len (xs ! Suc p) xs = Some ys"
    "length ys = length xs" "heap_from f (Suc p) len ys" "mset ys = mset (xs[Suc p := xs ! Suc p])"
    by blast
  with Suc.prems have "p < len" "len \<le> length ys" by simp_all
  from Suc.IH [OF ys(3) this]
  obtain zs where "make_heap_loop (by_key f) len p ys = Some zs" "length zs = length ys"
    "heap_from f 0 len zs" "mset zs = mset ys"
    by blast
  with ys px show ?case
    by (subst make_heap_loop.simps) simp
qed

lemma make_heap_heap:
  assumes "len \<le> length xs"
  shows "\<exists>ys. make_heap (by_key f) len xs = Some ys \<and> length ys = length xs \<and>
           heap_from f 0 len ys \<and> mset ys = mset xs"
proof (cases "len < 2")
  case True
  then have "heap_from f 0 len xs"
    unfolding heap_from_def by auto
  with True show ?thesis by (simp add: make_heap_def)
next
  case False
  have "heap_from f (Suc ((len - 2) div 2)) len xs"
    unfolding heap_from_def
  proof (intro allI impI)
    fix i assume "0 < i \<and> i < len \<and> Suc ((len - 2) div 2) \<le> (i - 1) div 2"
    then have False by arith
    then show "f (xs ! i) \<le> f (xs ! ((i - 1) div 2))" ..
  qed
  moreover from False have "(len - 2) div 2 < len" by arith
  ultimately show ?thesis
    using make_heap_loop_heap [of f "(len - 2) div 2" len xs] assms False
    by (simp add: make_heap_def)
qed

lemma drop_update_same: "k < length xs \<Longrightarrow> drop k (xs[k := a]) = a # drop (Suc k) xs"
  by (metis Cons_nth_drop_Suc drop_update_cancel length_list_update lessI nth_list_update_eq)

lemma pop_heap_heap:
  assumes "heap_from f 0 (Suc k) xs" and "0 < k" and "Suc k \<le> length xs"
  shows "\<exists>ys. pop_heap (by_key f) k k xs = Some ys \<and> length ys = length xs \<and>
           heap_from f 0 k ys \<and> mset ys = mset xs \<and> drop k ys = xs ! 0 # drop (Suc k) xs"
proof -
  let ?xs = "xs[k := xs ! 0]"
  from assms have kx: "k < length xs" "0 < length xs" by auto
  have "heap_from f (Suc 0) k ?xs"
    unfolding heap_from_def
  proof (intro allI impI)
    fix i assume i: "0 < i \<and> i < k \<and> Suc 0 \<le> (i - 1) div 2"
    with assms(1) have "f (xs ! i) \<le> f (xs ! ((i - 1) div 2))"
      by (intro heap_fromD) auto
    moreover from i have "i \<noteq> k" "(i - 1) div 2 \<noteq> k" by arith+
    ultimately show "f (?xs ! i) \<le> f (?xs ! ((i - 1) div 2))" by simp
  qed
  moreover from assms have "k \<le> length ?xs" by simp
  ultimately obtain ys where "adjust_heap (by_key f) 0 k (xs ! k) ?xs = Some ys"
    "length ys = length ?xs" "drop k ys = drop k ?xs" "heap_from f 0 k ys"
    "mset ys = mset (?xs[0 := xs ! k])"
    using adjust_heap_heap [of f 0 k ?xs "xs ! k"] assms(2) by blast
  moreover have "mset (?xs[0 := xs ! k]) = mset xs"
    using kx by (intro mset_iter_swap)
  moreover have "drop k ?xs = xs ! 0 # drop (Suc k) xs"
    using kx by (intro drop_update_same)
  ultimately show ?thesis
    using kx by (simp add: pop_heap_def)
qed

lemma sort_heap_sorted:
  assumes "len \<le> length xs" and "heap_from f 0 len xs" and "sorted (map f (drop len xs))"
    and "\<forall>a \<in> set (take len xs). \<forall>b \<in> set (drop len xs). f a \<le> f b"
  shows "\<exists>ys. sort_heap (by_key f) len xs = Some ys \<and> mset ys = mset xs \<and> sorted (map f ys)"
  using assms
proof (induction len arbitrary: xs)
  case 0
  then show ?case by (subst sort_heap.simps) simp
next
  case (Suc k)
  show ?case
  proof (cases "k = 0")
    case True
    have "xs = take (Suc k) xs @ drop (Suc k) xs" by simp
    moreover have "sorted (map f (take (Suc k) xs))"
      using True by (cases xs) simp_all
    then have "sorted (map f (take (Suc k) xs @ drop (Suc k) xs))"
      unfolding map_append sorted_append
      using Suc.prems(3,4) by auto
    ultimately have "sorted (map f xs)" by simp
    with True show ?thesis by (subst sort_heap.simps) simp
  next
    case False
    then have k: "0 < k" by simp
    from pop_heap_heap [OF Suc.prems(2) k Suc.prems(1)]
    obtain ys where pop: "pop_heap (by_key f) k k xs = Some ys" and ly: "length ys = length xs"
      and hy: "heap_from f 0 k ys" and my: "mset ys = mset xs"
      and dy: "drop k ys = xs ! 0 # drop (Suc k) xs"
      by blast
    from Suc.prems(1) have kx: "k < length xs" "0 < length xs" by auto
    have root: "\<forall>a \<in> set (take (Suc k) xs). f a \<le> f (xs ! 0)"
    proof
      fix a assume "a \<in> set (take (Suc k) xs)"
      then obtain i where "i < Suc k" "a = xs ! i"
        using kx by (auto simp: in_set_conv_nth)
      with heap_root_max [OF Suc.prems(2), of i] show "f a \<le> f (xs ! 0)" by simp
    qed
    have x0: "xs ! 0 \<in> set (take (Suc k) xs)"
      using kx by (auto simp: in_set_conv_nth intro!: exI [of _ 0])
    have sub: "set (take k ys) \<subseteq> set (take (Suc k) xs)"
    proof -
      have "mset (take k ys) + mset (drop k ys) = mset (take (Suc k) xs) + mset (drop (Suc k) xs)"
        using my by (metis append_take_drop_id mset_append)
      with dy have "add_mset (xs ! 0) (mset (take k ys)) = mset (take (Suc k) xs)"
        by simp
      then have "set_mset (mset (take k ys)) \<subseteq> set_mset (mset (take (Suc k) xs))"
        by (metis set_mset_add_mset_insert subset_insertI)
      then show ?thesis by simp
    qed
    have s1: "sorted (map f (drop k ys))"
      using dy Suc.prems(3,4) x0 by simp
    have s2: "\<forall>a \<in> set (take k ys). \<forall>b \<in> set (drop k ys). f a \<le> f b"
    proof (intro ballI)
      fix a b assume a: "a \<in> set (take k ys)" and b: "b \<in> set (drop k ys)"
      from a sub have a': "a \<in> set (take (Suc k) xs)" by blast
      from b dy have "b = xs ! 0 \<or> b \<in> set (drop (Suc k) xs)" by simp
      with a' root Suc.prems(4) show "f a \<le> f b" by blast
    qed
    from ly kx have "k \<le> length ys" by simp
    from Suc.IH [OF this hy s1 s2]
    obtain zs where "sort_heap (by_key f) k ys = Some zs" "mset zs = mset ys" "sorted (map f zs)"
      by blast
    with pop my k show ?thesis
      by (subst sort_heap.simps) simp
  qed
qed

lemma partial_sort_sorted:
  "\<exists>ys. partial_sort (by_key f) xs = Some ys \<and> mset ys = mset xs \<and> sorted (map f ys)"
proof -
  from make_heap_heap [of "length xs" xs f]
  obtain ys where ys: "make_heap (by_key f) (length xs) xs = Some ys" "length ys = length xs"
    "heap_from f 0 (length xs) ys" "mset ys = mset xs"
    by auto
  then have "length ys \<le> length ys" "heap_from f 0 (length ys) ys"
    "sorted (map f (drop (length ys) ys))"
    "\<forall>a \<in> set (take (length ys) ys). \<forall>b \<in> set (drop (length ys) ys). f a \<le> f b"
    by simp_all
  from sort_heap_sorted [OF this]
  obtain zs where "sort_heap (by_key f) (length ys) ys = Some zs" "mset zs = mset ys"
    "sorted (map f zs)"
    by blast
  with ys show ?thesis by (simp add: partial_sort_def)
qed

subsection \<open>The library's sort: the whole\<close>

lemma least_element:
  "xs \<noteq> [] \<Longrightarrow> \<exists>m \<in> set xs. \<forall>x \<in> set xs. f m \<le> (f x :: 'k :: linorder)"
proof (induction xs)
  case Nil
  then show ?case by simp
next
  case (Cons a xs)
  show ?case
  proof (cases "xs = []")
    case True
    then show ?thesis by simp
  next
    case False
    with Cons.IH obtain m where m: "m \<in> set xs" "\<forall>x \<in> set xs. f m \<le> f x" by blast
    show ?thesis
    proof (cases "f a \<le> f m")
      case True
      with m have "\<forall>x \<in> set (a # xs). f a \<le> f x" by auto
      then show ?thesis by auto
    next
      case False
      with m have "\<forall>x \<in> set (a # xs). f m \<le> f x" by auto
      with m(1) show ?thesis by auto
    qed
  qed
qed

lemma introsort_loop_front:
  "\<exists>ys. introsort_loop (by_key f) d xs = Some ys \<and> mset ys = mset xs \<and>
     (ys \<noteq> [] \<longrightarrow> (\<exists>m \<in> set (take S_threshold ys). \<forall>x \<in> set ys. f m \<le> f x))"
proof (induction d arbitrary: xs)
  case 0
  show ?case
  proof (cases "length xs > S_threshold")
    case False
    then have "take S_threshold xs = xs" by simp
    with False least_element [of xs f] show ?thesis
      by (subst introsort_loop.simps) auto
  next
    case True
    from partial_sort_sorted [of f xs]
    obtain ys where ys: "partial_sort (by_key f) xs = Some ys" "mset ys = mset xs"
      "sorted (map f ys)"
      by blast
    have "\<exists>m \<in> set (take S_threshold ys). \<forall>x \<in> set ys. f m \<le> f x" if "ys \<noteq> []"
    proof -
      from that obtain y rest where "ys = y # rest" by (cases ys) auto
      with ys(3) show ?thesis by (auto simp: S_threshold_def)
    qed
    with ys True show ?thesis
      by (subst introsort_loop.simps) simp
  qed
next
  case (Suc d)
  show ?case
  proof (cases "length xs > S_threshold")
    case False
    then have "take S_threshold xs = xs" by simp
    with False least_element [of xs f] show ?thesis
      by (subst introsort_loop.simps) auto
  next
    case True
    then have "3 < length xs" by (simp add: S_threshold_def)
    from unguarded_partition_pivot_splits [OF this, of f]
    obtain ys cut where part: "unguarded_partition_pivot (by_key f) xs = Some (ys, cut)"
      and ms: "mset ys = mset xs" and cut: "0 < cut" "cut < length xs"
      and split: "\<forall>a \<in> set (take cut ys). \<forall>b \<in> set (drop cut ys). f a \<le> f b"
      by blast
    from Suc.IH [of "drop cut ys"]
    obtain right where right: "introsort_loop (by_key f) d (drop cut ys) = Some right"
      "mset right = mset (drop cut ys)"
      by blast
    from Suc.IH [of "take cut ys"]
    obtain left where left: "introsort_loop (by_key f) d (take cut ys) = Some left"
      "mset left = mset (take cut ys)"
      "left \<noteq> [] \<longrightarrow> (\<exists>m \<in> set (take S_threshold left). \<forall>x \<in> set left. f m \<le> f x)"
      by blast
    from ms have "length ys = length xs" by (rule mset_eq_length)
    with cut have "take cut ys \<noteq> []" by auto
    with left(2) have "left \<noteq> []" by auto
    with left(3) obtain m where m: "m \<in> set (take S_threshold left)"
      "\<forall>x \<in> set left. f m \<le> f x"
      by blast
    from left(2) have sl: "set left = set (take cut ys)" by (rule mset_eq_setD)
    from right(2) have sr: "set right = set (drop cut ys)" by (rule mset_eq_setD)
    from m(1) have "m \<in> set left" by (rule in_set_takeD)
    with sl sr split have "\<forall>x \<in> set right. f m \<le> f x" by blast
    with m(2) have "\<forall>x \<in> set (left @ right). f m \<le> f x" by auto
    moreover from m(1) have "m \<in> set (take S_threshold (left @ right))" by simp
    moreover have "mset (left @ right) = mset xs"
      using left(2) right(2) ms by (metis append_take_drop_id mset_append)
    moreover have "introsort_loop (by_key f) (Suc d) xs = Some (left @ right)"
      using True part left(1) right(1) by (subst introsort_loop.simps) simp
    ultimately show ?thesis by blast
  qed
qed

lemma std_sort_sorted:
  "\<exists>ys. std_sort (by_key f) xs = Some ys \<and> mset ys = mset xs \<and> sorted (map f ys)"
proof (cases "xs = []")
  case True
  then show ?thesis by (simp add: std_sort_def)
next
  case False
  from introsort_loop_front [of f "lg (length xs) * 2" xs]
  obtain ys where ys: "introsort_loop (by_key f) (lg (length xs) * 2) xs = Some ys"
    "mset ys = mset xs"
    "ys \<noteq> [] \<longrightarrow> (\<exists>m \<in> set (take S_threshold ys). \<forall>x \<in> set ys. f m \<le> f x)"
    by blast
  from False ys(2) have "ys \<noteq> []" by auto
  with ys(3) have "length ys > S_threshold \<longrightarrow>
      (\<exists>m \<in> set (take S_threshold ys). \<forall>x \<in> set ys. f m \<le> f x)"
    by simp
  from final_insertion_sort_sorted [OF this]
  obtain zs where "final_insertion_sort (by_key f) ys = Some zs" "mset zs = mset ys"
    "sorted (map f zs)"
    by blast
  with ys False show ?thesis by (simp add: std_sort_def)
qed

text \<open>A range of at most 16 elements is sorted by the final insertion sort alone, and
  that is stable.\<close>

lemma std_sort_short:
  assumes "length xs \<le> S_threshold"
  shows "std_sort (by_key f) xs = Some (sort_key f xs)"
proof (cases "xs = []")
  case True
  then show ?thesis by (simp add: std_sort_def)
next
  case False
  from assms have loop: "introsort_loop (by_key f) (lg (length xs) * 2) xs = Some xs"
    by (subst introsort_loop.simps) simp
  from insertion_sort_prefix [of "length xs" xs f]
  obtain srt where srt: "insertion_sort (by_key f) 0 (length xs) xs = Some srt"
    "mset srt = mset xs" "sorted (map f srt)"
    and st: "\<forall>a. filter (\<lambda>x. f x = a) srt = filter (\<lambda>x. f x = a) xs"
    by auto
  have "sort_key f xs = srt"
  proof (rule properties_for_sort_key)
    show "mset srt = mset xs" by (rule srt(2))
    show "sorted (map f srt)" by (rule srt(3))
  next
    fix k
    have "(\<lambda>x. f k = f x) = (\<lambda>x. f x = f k)" by auto
    with st show "filter (\<lambda>x. f k = f x) srt = filter (\<lambda>x. f k = f x) xs" by simp
  qed
  with False assms loop srt(1) show ?thesis
    by (simp add: std_sort_def final_insertion_sort_def)
qed

subsection \<open>Sort and Search\<close>

lemma collect_stored: "collect t [] = stored t"
  by (simp add: collect_def stored_def buckets_def)

lemma less_than_key_by_key: "less_than_key = by_key courseId"
  by (intro ext) (simp add: less_than_key_def by_key_def)

lemma Sort_sorted:
  "\<exists>result. Sort t sortCourses = Some result \<and> mset result = mset (collect t sortCourses) \<and>
     sorted (map courseId result)"
  using std_sort_sorted [of courseId "collect t sortCourses"]
  by (simp add: Sort_def less_than_key_by_key)

lemma AllSorted_sorted:
  "\<exists>result. AllSorted t = Some result \<and> mset result = mset (stored t) \<and>
     sorted (map courseId result)"
  using Sort_sorted [of t "[]"] by (simp add: AllSorted_def collect_stored)

lemma AllSorted_short:
  assumes "length (stored t) \<le> 16"
  shows "AllSorted t = Some (stable_by_id (stored t))"
  using assms std_sort_short [of "stored t" courseId]
  by (simp add: AllSorted_def Sort_def collect_stored less_than_key_by_key stable_by_id_def
      S_threshold_def)




section \<open>The claims\<close>

text \<open>C1: the size chosen by \<open>Resize\<close> should be the smallest prime above twice the old
  size. At size 12 the scan of lines 312-320 stops at 27, which is 3 times 9, while the
  smallest prime above 24 is 29; at size 1 it returns 2, which is not above twice the
  old size.\<close>

theorem Resize_of_12_is_27:
  "map_sum id tableSize (InsertAll 1 twelve (HashTable_size 12)) = Inr 27 \<and>
   find_size (12 * 2) = 27 \<and> \<not> is_prime 27 \<and>
   \<not> is_prime 25 \<and> \<not> is_prime 26 \<and> \<not> is_prime 28 \<and> is_prime 29 \<and>
   map_sum id tableSize (Insert 1 cs101 (HashTable_size 1)) = Inr 2"
  by code_simp

text \<open>C2: the hash should be the reference algorithm on unsigned integers of a fixed
  width. For the id \<open>CS101\<close> in the default table the accumulator of \<open>hash\<close>, an
  \<open>int\<close>, ends negative, its conversion to \<open>size_t\<close> extends the sign, and the bucket is
  15; the reference algorithm gives 17 on 32 bits and 163 on 64 bits.\<close>

theorem hash_CS101_is_not_the_reference:
  "hash HashTable_default ''CS101'' = Inr 15 \<and>
   sint (hash_key ''CS101'') = - 912995516 \<and>
   hash_reference 32 ''CS101'' 179 = 17 \<and>
   hash_reference 64 ''CS101'' 179 = 163 \<and>
   hash_reference 16 ''CS101'' 179 = 126 \<and>
   hash_reference 8 ''CS101'' 179 = 68"
  by (simp add: hash_def hash_key_def hash_round_def int_of_char_def HashTable_default_def
      DEFAULT_SIZE_def hash_reference_def)

text \<open>C3: a table constructed with a size of at least 1 takes every run of insertions
  (the model needs fuel for one level of \<open>Resize\<close>), and for every record \<open>r\<close> of the run
  \<open>Search\<close> with the id of \<open>r\<close> then returns the first record inserted under that id,
  which is \<open>r\<close> itself when no id was inserted twice. Resizes on the way do not change
  this. The sizes are those for which the 32-bit arithmetic of the source does not
  overflow: an initial size below \<open>2^29\<close> and at most \<open>2^27\<close> records.\<close>

theorem Search_returns_first_inserted:
  assumes "0 < unat n" and "unat n < 2 ^ 29" and "length cs \<le> 2 ^ 27"
    and r: "r \<in> set cs"
  shows "\<exists>t. InsertAll (Suc fuel) cs (HashTable_size n) = Inr t \<and>
           Search (courseId r) t = Inr (hd (filter (has_id (courseId r)) cs), t) \<and>
           (distinct (map courseId cs) \<longrightarrow> Search (courseId r) t = Inr (r, t))"
proof -
  from run_total [of n cs fuel] assms(1-3)
  obtain t where run: "InsertAll (Suc fuel) cs (HashTable_size n) = Inr t"
    and h: "holds t cs" and inv: "table_inv t" and lt: "unat (tableSize t) < 2 ^ 31"
    by auto
  from r have "filter (has_id (courseId r)) cs \<noteq> []"
    by (auto simp: filter_empty_conv has_id_def)
  then have "find (has_id (courseId r)) cs = Some (hd (filter (has_id (courseId r)) cs))"
    by (cases "filter (has_id (courseId r)) cs") (simp_all add: find_filter_eq)
  with Search_history [OF inv lt h, of "courseId r"]
  have first: "Search (courseId r) t = Inr (hd (filter (has_id (courseId r)) cs), t)"
    by simp
  with r have "distinct (map courseId cs) \<longrightarrow> Search (courseId r) t = Inr (r, t)"
    by (simp add: filter_distinct_ids)
  with run first show ?thesis by blast
qed

theorem Search_returns_first_inserted_witness:
  "InsertAll 1 [cs101, cs102, cs101b] (HashTable_size 3) = Inr grown_table \<and>
   tableSize grown_table = 7 \<and>
   Search ''CS101'' grown_table = Inr (cs101, grown_table) \<and>
   Search ''CS102'' grown_table = Inr (cs102, grown_table)"
proof -
  have run: "InsertAll (Suc 0) [cs101, cs102, cs101b] (HashTable_size 3) = Inr grown_table"
    by code_simp
  have n: "0 < unat (3 :: 32 word)" "unat (3 :: 32 word) < 2 ^ 29"
    and len: "length [cs101, cs102, cs101b] \<le> 2 ^ 27"
    by simp_all
  from Search_returns_first_inserted [OF n len, of cs101b 0] run
  have "Search ''CS101'' grown_table = Inr (cs101, grown_table)"
    by (simp add: has_id_def cs101_def cs101b_def cs102_def)
  moreover from Search_returns_first_inserted [OF n len, of cs102 0] run
  have "Search ''CS102'' grown_table = Inr (cs102, grown_table)"
    by (simp add: has_id_def cs101_def cs101b_def cs102_def)
  moreover have "tableSize grown_table = 7"
    by (simp add: grown_table_def)
  ultimately show ?thesis using run by simp
qed

text \<open>C4: ids are not deduplicated. When a record \<open>c\<close> is inserted whose id is that of
  a stored record \<open>r\<close>, lines 198-207 link it at the tail of the chain that holds \<open>r\<close>;
  the insertion succeeds, the count and the number of used entries grow by one, \<open>c\<close>
  comes after every earlier record of its id in their chain (also when the insertion
  ends with a resize), and \<open>Search\<close> for the id returns what it returned before: the
  first record of that id.\<close>

theorem duplicate_is_appended_and_shadowed:
  assumes inv: "table_inv t" and sm: "small t"
    and r: "r \<in> set (stored t)" and same: "courseId r = courseId c"
  shows "r \<in> set (buckets t ! bucket_of (length (nodes t)) (courseId c)) \<and>
     (\<exists>t1. place c t = Inr t1 \<and>
        buckets t1 = (buckets t)[bucket_of (length (nodes t)) (courseId c) :=
          buckets t ! bucket_of (length (nodes t)) (courseId c) @ [c]]) \<and>
     (\<exists>t'. Insert (Suc fuel) c t = Inr t' \<and>
        sint (numEntries t') = sint (numEntries t) + 1 \<and>
        occupied_entries t' = occupied_entries t + 1 \<and>
        filter (has_id (courseId c))
            (buckets t' ! bucket_of (length (nodes t')) (courseId c)) =
          filter (has_id (courseId c))
            (buckets t ! bucket_of (length (nodes t)) (courseId c)) @ [c] \<and>
        Search (courseId c) t = Inr (hd (filter (has_id (courseId c)) (stored t)), t) \<and>
        Search (courseId c) t' = Inr (hd (filter (has_id (courseId c)) (stored t)), t'))"
proof -
  let ?k = "courseId c"
  let ?b = "bucket_of (length (nodes t)) ?k"
  from sm have sm': "unat (tableSize t) < 2 ^ 29" by (simp add: small_def)
  then have lt: "unat (tableSize t) < 2 ^ 31" and le: "unat (tableSize t) \<le> 2 ^ 31"
    by simp_all
  note d = table_invD [OF inv]
  from r same have rk: "r \<in> set (filter (has_id ?k) (stored t))"
    by (simp add: has_id_def)
  then have in_bucket: "r \<in> set (buckets t ! ?b)"
    by (simp add: filter_stored_bucket [OF inv])
  have ne: "filter (has_id ?k) (stored t) \<noteq> []"
  proof
    assume "filter (has_id ?k) (stored t) = []"
    with rk show False by (simp only: list.set empty_iff)
  qed
  from placed [OF inv le, of c]
  have pl: "\<exists>t1. place c t = Inr t1 \<and> buckets t1 = (buckets t)[?b := buckets t ! ?b @ [c]]"
    by blast
  from Insert_result [OF inv sm, of fuel c]
  obtain t' where ins: "Insert (Suc fuel) c t = Inr t'" and inv': "table_inv t'"
    and h': "holds t' (stored t @ [c])"
    and size': "if length (stored t) + 1 < unat (tableSize t) then tableSize t' = tableSize t
       else 2 * unat (tableSize t) \<le> unat (tableSize t') \<and>
            unat (tableSize t') < 4 * unat (tableSize t)"
    by blast
  from size' sm' have lt': "unat (tableSize t') < 2 ^ 31"
    by (auto split: if_splits)
  note d' = table_invD [OF inv']
  from h' have len': "length (stored t') = length (stored t) + 1"
    by (simp add: holds_length)
  with d(4) d'(4) have cnt: "sint (numEntries t') = sint (numEntries t) + 1"
    by simp
  from len' have occ: "occupied_entries t' = occupied_entries t + 1"
    by (simp add: occupied_entries_stored d(2) d'(2))
  have "filter (has_id ?k) (stored t') = filter (has_id ?k) (stored t) @ [c]"
    using h' by (simp add: holds_def has_id_def)
  then have chain: "filter (has_id ?k) (buckets t' ! bucket_of (length (nodes t')) ?k) =
      filter (has_id ?k) (buckets t ! ?b) @ [c]"
    by (simp add: filter_stored_bucket [OF inv] filter_stored_bucket [OF inv'])
  from ne have f: "find (has_id ?k) (stored t) = Some (hd (filter (has_id ?k) (stored t)))"
    by (cases "filter (has_id ?k) (stored t)") (simp_all add: find_filter_eq)
  with Search_history [OF inv lt holds_stored, of ?k]
  have s: "Search ?k t = Inr (hd (filter (has_id ?k) (stored t)), t)"
    by simp
  from ne have "find (has_id ?k) (stored t @ [c]) = Some (hd (filter (has_id ?k) (stored t)))"
    by (cases "filter (has_id ?k) (stored t)") (simp_all add: find_filter_eq)
  with Search_history [OF inv' lt' h', of ?k]
  have s': "Search ?k t' = Inr (hd (filter (has_id ?k) (stored t)), t')"
    by simp
  from ins cnt occ chain s s'
  have "\<exists>t'. Insert (Suc fuel) c t = Inr t' \<and>
        sint (numEntries t') = sint (numEntries t) + 1 \<and>
        occupied_entries t' = occupied_entries t + 1 \<and>
        filter (has_id ?k) (buckets t' ! bucket_of (length (nodes t')) ?k) =
          filter (has_id ?k) (buckets t ! ?b) @ [c] \<and>
        Search ?k t = Inr (hd (filter (has_id ?k) (stored t)), t) \<and>
        Search ?k t' = Inr (hd (filter (has_id ?k) (stored t)), t')"
    by blast
  with in_bucket pl show ?thesis by blast
qed

theorem duplicate_is_appended_and_shadowed_witness:
  "table_inv pair_table \<and> small pair_table \<and> cs101 \<in> set (stored pair_table) \<and>
   courseId cs101 = courseId cs101b \<and> Insert 1 cs101b pair_table = Inr grown_table \<and>
   numEntries pair_table = 2 \<and> numEntries grown_table = 3 \<and>
   Search ''CS101'' pair_table = Inr (cs101, pair_table) \<and>
   Search ''CS101'' grown_table = Inr (cs101, grown_table)"
proof -
  have run: "InsertAll 1 [cs101, cs102] (HashTable_size 3) = Inr pair_table"
    by code_simp
  have "0 < unat (3 :: 32 word)" and "unat (3 :: 32 word) < 2 ^ 29"
    and "length [cs101, cs102] \<le> 2 ^ 27"
    by simp_all
  from run_from_constructor(1) [OF run this] have inv: "table_inv pair_table" .
  have sm: "small pair_table"
    by (simp add: small_def pair_table_def)
  have st: "stored pair_table = [cs101, cs102]"
    by code_simp
  then have r: "cs101 \<in> set (stored pair_table)" by simp
  have same: "courseId cs101 = courseId cs101b"
    by (simp add: cs101_def cs101b_def)
  have ins: "Insert (Suc 0) cs101b pair_table = Inr grown_table"
    by code_simp
  have first: "hd (filter (has_id (courseId cs101b)) (stored pair_table)) = cs101"
    by (simp add: st has_id_def cs101_def cs101b_def cs102_def)
  from duplicate_is_appended_and_shadowed [OF inv sm r same, of 0] ins first
  have "Search (courseId cs101b) pair_table = Inr (cs101, pair_table) \<and>
      Search (courseId cs101b) grown_table = Inr (cs101, grown_table)"
    by auto
  with inv sm r same ins show ?thesis
    by (simp add: cs101b_def pair_table_def grown_table_def)
qed

text \<open>C5, as stated, asks for the stable order: records with equal ids in their
  collection order. \<open>Sort\<close> calls \<open>std::sort\<close>, which is not stable. Seventeen records
  with the id \<open>CS101\<close> and the titles \<open>A\<close> to \<open>Q\<close>, inserted in this order into the table
  of the default constructor, are collected in this order, and a stable sort leaves them
  so; \<open>AllSorted\<close> returns them in the order \<open>I Q P O N M L K J A H G F E D C B\<close>. (The
  median of three swaps the first with the middle element, and the partition then swaps
  equal elements from both ends.)\<close>

theorem AllSorted_of_seventeen_is_not_stable:
  "InsertAll 1 seventeen HashTable_default = Inr seventeen_table \<and>
   collect seventeen_table [] = seventeen \<and>
   concat (map courseTitle seventeen) = ''ABCDEFGHIJKLMNOPQ'' \<and>
   stable_by_id (collect seventeen_table []) = seventeen \<and>
   AllSorted seventeen_table = Some seventeen_sorted \<and>
   concat (map courseTitle seventeen_sorted) = ''IQPONMLKJAHGFEDCB'' \<and>
   seventeen_sorted \<noteq> stable_by_id (collect seventeen_table [])"
  by code_simp

text \<open>C5, amended: for every table, \<open>AllSorted\<close> returns a sequence that holds each stored
  record exactly once (duplicate ids included) and is non-decreasing by id in the
  lexicographic order of strings; for the table that a run of insertions from the
  constructor leaves behind, its length is the number of insertions and its records are
  the inserted ones. Records with equal ids are in their collection order when the table
  holds at most 16 records, the library's sort being a single insertion sort then; with
  more records they need not be.\<close>

theorem AllSorted_is_sorted_permutation:
  assumes "0 < unat n \<or> cs = []" and "unat n < 2 ^ 29" and "length cs \<le> 2 ^ 27"
  shows "(\<exists>result. AllSorted u = Some result \<and> mset result = mset (stored u) \<and>
            sorted (map courseId result) \<and>
            (length (stored u) \<le> 16 \<longrightarrow> result = stable_by_id (stored u))) \<and>
         (\<exists>t result. InsertAll (Suc fuel) cs (HashTable_size n) = Inr t \<and>
            AllSorted t = Some result \<and>
            mset result = mset (stored t) \<and> mset result = mset cs \<and>
            length result = length cs \<and> sorted (map courseId result))"
proof -
  from run_total [OF assms, of fuel]
  obtain t where run: "InsertAll (Suc fuel) cs (HashTable_size n) = Inr t"
    and h: "holds t cs"
    by blast
  from h have m: "mset (stored t) = mset cs" by (rule holds_mset)
  from AllSorted_sorted [of t]
  obtain result where res: "AllSorted t = Some result" "mset result = mset (stored t)"
    "sorted (map courseId result)"
    by blast
  from res(2) m have "mset result = mset cs" by simp
  moreover from this have "length result = length cs" by (rule mset_eq_length)
  ultimately have a: "\<exists>t result. InsertAll (Suc fuel) cs (HashTable_size n) = Inr t \<and>
      AllSorted t = Some result \<and>
      mset result = mset (stored t) \<and> mset result = mset cs \<and>
      length result = length cs \<and> sorted (map courseId result)"
    using run res by blast
  from AllSorted_sorted [of u]
  obtain r where r: "AllSorted u = Some r" "mset r = mset (stored u)" "sorted (map courseId r)"
    by blast
  have "length (stored u) \<le> 16 \<longrightarrow> r = stable_by_id (stored u)"
    using AllSorted_short [of u] r(1) by simp
  with r a show ?thesis by blast
qed

theorem AllSorted_is_sorted_permutation_witness:
  "InsertAll 1 [cs101, cs102, cs101b] (HashTable_size 3) = Inr grown_table \<and>
   collect grown_table [] = [cs102, cs101, cs101b] \<and>
   AllSorted grown_table = Some [cs101, cs101b, cs102] \<and>
   mset [cs101, cs101b, cs102] = mset (stored grown_table) \<and>
   mset [cs101, cs101b, cs102] = mset [cs101, cs102, cs101b] \<and>
   length [cs101, cs101b, cs102] = length [cs101, cs102, cs101b] \<and>
   sorted (map courseId [cs101, cs101b, cs102]) \<and>
   length (stored grown_table) \<le> 16 \<and>
   [cs101, cs101b, cs102] = stable_by_id (stored grown_table)"
proof -
  have run1: "InsertAll 1 [cs101, cs102, cs101b] (HashTable_size 3) = Inr grown_table"
    by code_simp
  then have run: "InsertAll (Suc 0) [cs101, cs102, cs101b] (HashTable_size 3) = Inr grown_table"
    by simp
  have col: "collect grown_table [] = [cs102, cs101, cs101b]"
    by code_simp
  have out: "AllSorted grown_table = Some [cs101, cs101b, cs102]"
    by code_simp
  have few: "length (stored grown_table) \<le> 16"
    by code_simp
  have n: "0 < unat (3 :: 32 word) \<or> [cs101, cs102, cs101b] = []"
    "unat (3 :: 32 word) < 2 ^ 29"
    and len: "length [cs101, cs102, cs101b] \<le> 2 ^ 27"
    by simp_all
  note inst = AllSorted_is_sorted_permutation [OF n len, of grown_table 0]
  from inst obtain r where r: "AllSorted grown_table = Some r"
    and stable: "length (stored grown_table) \<le> 16 \<longrightarrow> r = stable_by_id (stored grown_table)"
    by blast
  from r out have "r = [cs101, cs101b, cs102]" by simp
  moreover from stable few have "r = stable_by_id (stored grown_table)" by (rule mp)
  ultimately have s: "[cs101, cs101b, cs102] = stable_by_id (stored grown_table)"
    by (rule subst)
  from inst
  obtain t result where t: "InsertAll (Suc 0) [cs101, cs102, cs101b] (HashTable_size 3) = Inr t"
    and res: "AllSorted t = Some result"
    and facts: "mset result = mset (stored t)" "mset result = mset [cs101, cs102, cs101b]"
      "length result = length [cs101, cs102, cs101b]" "sorted (map courseId result)"
    by blast
  from t run have "t = grown_table" by (metis Inr_inject)
  with res out have "result = [cs101, cs101b, cs102]" by simp
  with facts \<open>t = grown_table\<close>
  have "mset [cs101, cs101b, cs102] = mset (stored grown_table) \<and>
      mset [cs101, cs101b, cs102] = mset [cs101, cs102, cs101b] \<and>
      length [cs101, cs101b, cs102] = length [cs101, cs102, cs101b] \<and>
      sorted (map courseId [cs101, cs101b, cs102])"
    by blast
  with run1 col out few s show ?thesis by blast
qed

text \<open>C6, as stated, has \<open>Insert\<close> succeed always. On the table constructed with size 0
  it fails with the remainder by zero of \<open>hash\<close>.\<close>

theorem Insert_fails_on_capacity_zero:
  "Insert 1 cs101 (HashTable_size 0) = Inl DivisionByZero"
  by code_simp

text \<open>C6, amended: on a table in the state that the constructor with a size of at
  least 1 and the insertions leave behind (and of a size below \<open>2^29\<close>), \<open>Insert\<close>
  succeeds for every record, whether its id is stored already or not, given fuel for
  one resize. After the record is placed and counted, \<open>loadFactor\<close> is the new count
  over the size; \<open>Resize\<close> is called, and the table grows, exactly when that is at least
  1, and otherwise the result is the table with the record placed and counted.\<close>

theorem Insert_succeeds_and_resizes_at_full_load:
  assumes inv: "table_inv t" and sm: "small t"
  shows "\<exists>t1 t'. place c t = Inr t1 \<and> Insert (Suc fuel) c t = Inr t' \<and>
           loadFactor (count_entry t1) =
             of_int (sint (numEntries t) + 1) / of_nat (unat (tableSize t)) \<and>
           (if 1 \<le> loadFactor (count_entry t1)
            then Resize (Suc fuel) (count_entry t1) = Inr t' \<and>
                 unat (tableSize t) < unat (tableSize t')
            else t' = count_entry t1 \<and> tableSize t' = tableSize t)"
proof -
  from sm have sm': "unat (tableSize t) < 2 ^ 29" by (simp add: small_def)
  then have lt: "unat (tableSize t) < 2 ^ 31" and le: "unat (tableSize t) \<le> 2 ^ 31"
    by simp_all
  from placed [OF inv le, of c] obtain t1 where pl: "place c t = Inr t1"
    by blast
  let ?t2 = "count_entry t1"
  note r = placed_facts [OF inv lt pl]
  note d = table_invD [OF inv]
  have pos: "0 < unat (tableSize t)" using d(5) by simp
  have lf: "loadFactor ?t2 = of_int (sint (numEntries t) + 1) / of_nat (unat (tableSize t))"
    using r(7) d(4) by simp
  show ?thesis
  proof (cases "1 \<le> loadFactor ?t2")
    case True
    with pl have ins: "Insert (Suc fuel) c t = Resize (Suc fuel) ?t2"
      by (simp add: Insert.simps Let_def)
    have fill: "length (stored ?t2) < 2 * unat (tableSize ?t2)"
      using r(5,8) d(5) by simp
    from Resize_result [of ?t2 fuel] pos sm' fill r(8)
    obtain t' where t': "Resize (Suc fuel) ?t2 = Inr t'"
      "2 * unat (tableSize t) \<le> unat (tableSize t')"
      by auto
    from t'(2) pos have "unat (tableSize t) < unat (tableSize t')" by simp
    with pl ins t'(1) lf True show ?thesis by simp
  next
    case False
    with pl have "Insert (Suc fuel) c t = Inr ?t2"
      by (simp add: Insert.simps Let_def)
    with pl lf False r(8) show ?thesis by simp
  qed
qed

theorem Insert_succeeds_and_resizes_at_full_load_witness:
  "table_inv pair_table \<and> small pair_table \<and>
   Insert 1 cs101b pair_table = Inr grown_table \<and>
   (\<exists>t1 t'. place cs101b pair_table = Inr t1 \<and> Insert (Suc 0) cs101b pair_table = Inr t' \<and>
      loadFactor (count_entry t1) =
        of_int (sint (numEntries pair_table) + 1) / of_nat (unat (tableSize pair_table)) \<and>
      (if 1 \<le> loadFactor (count_entry t1)
       then Resize (Suc 0) (count_entry t1) = Inr t' \<and>
            unat (tableSize pair_table) < unat (tableSize t')
       else t' = count_entry t1 \<and> tableSize t' = tableSize pair_table))"
proof -
  have run: "InsertAll 1 [cs101, cs102] (HashTable_size 3) = Inr pair_table"
    by code_simp
  have "0 < unat (3 :: 32 word)" and "unat (3 :: 32 word) < 2 ^ 29"
    and "length [cs101, cs102] \<le> 2 ^ 27"
    by simp_all
  from run_from_constructor(1) [OF run this] have inv: "table_inv pair_table" .
  have sm: "small pair_table"
    by (simp add: small_def pair_table_def)
  have "Insert 1 cs101b pair_table = Inr grown_table"
    by code_simp
  with Insert_succeeds_and_resizes_at_full_load [OF inv sm, of cs101b 0] inv sm
  show ?thesis by simp
qed

text \<open>C7: \<open>Search\<close> leaves the table as it was: the vector of chains, the size, the
  count and the load factor are the same after the call.\<close>

theorem Search_leaves_table_unchanged:
  assumes "Search cid t = Inr (c, t')"
  shows "t' = t \<and> nodes t' = nodes t \<and> tableSize t' = tableSize t \<and>
         numEntries t' = numEntries t \<and> loadFactor t' = loadFactor t"
  using assms
  by (auto simp: Search_def Let_def split: sum.splits if_splits)

theorem Search_leaves_table_unchanged_witness:
  "InsertAll 1 [cs101, cs101b] (HashTable_size 3) = Inr sample_table \<and>
   Search ''CS101'' sample_table = Inr (cs101, sample_table) \<and>
   nodes sample_table = [Node_default, Node_default, Node cs101 2 (Some (Node cs101b 2 None))]"
proof -
  have run: "InsertAll 1 [cs101, cs101b] (HashTable_size 3) = Inr sample_table"
    by code_simp
  have hit: "Search ''CS101'' sample_table = Inr (cs101, sample_table)"
    by code_simp
  from Search_leaves_table_unchanged [OF hit] run hit show ?thesis
    by (simp add: sample_table_def)
qed

text \<open>C8: after construction (a run of no insertions, for any size) and after every
  insertion of a run, with or without a resize, \<open>numEntries\<close> is the number of used
  entries on the chains of the table, which is the number of insertions made. The
  default constructor builds the table of size 179 (\<open>HashTable_default_size\<close>).\<close>

theorem count_is_number_of_occupied_entries:
  assumes "0 < unat n \<or> cs = []" and "unat n < 2 ^ 29" and "length cs \<le> 2 ^ 27"
  shows "\<exists>t. InsertAll (Suc fuel) cs (HashTable_size n) = Inr t \<and>
           sint (numEntries t) = int (occupied_entries t) \<and>
           occupied_entries t = length cs"
proof -
  from run_total [OF assms, of fuel]
  obtain t where run: "InsertAll (Suc fuel) cs (HashTable_size n) = Inr t"
    and h: "holds t cs" and ok: "list_all head_ok (nodes t)"
    and cnt: "sint (numEntries t) = int (length (stored t))"
    by blast
  from ok have "occupied_entries t = length (stored t)"
    by (rule occupied_entries_stored)
  with run h cnt show ?thesis
    by (auto simp: holds_length)
qed

theorem count_is_number_of_occupied_entries_witness:
  "InsertAll 1 [cs101, cs102, cs101b] (HashTable_size 3) = Inr grown_table \<and>
   tableSize grown_table = 7 \<and>
   sint (numEntries grown_table) = int (occupied_entries grown_table) \<and>
   occupied_entries grown_table = 3 \<and>
   numEntries (HashTable_size 0) = 0 \<and> occupied_entries (HashTable_size 0) = 0"
proof -
  have run: "InsertAll (Suc 0) [cs101, cs102, cs101b] (HashTable_size 3) = Inr grown_table"
    by code_simp
  have n: "0 < unat (3 :: 32 word) \<or> [cs101, cs102, cs101b] = []"
    "unat (3 :: 32 word) < 2 ^ 29"
    and len: "length [cs101, cs102, cs101b] \<le> 2 ^ 27"
    by simp_all
  have n0: "0 < unat (0 :: 32 word) \<or> ([] :: Course list) = []"
    "unat (0 :: 32 word) < 2 ^ 29" "length ([] :: Course list) \<le> 2 ^ 27"
    by simp_all
  from count_is_number_of_occupied_entries [OF n len, of 0] run
  have a: "sint (numEntries grown_table) = int (occupied_entries grown_table) \<and>
      occupied_entries grown_table = 3"
    by simp
  from count_is_number_of_occupied_entries [OF n0, of 0]
  have b: "sint (numEntries (HashTable_size 0)) = int (occupied_entries (HashTable_size 0)) \<and>
      occupied_entries (HashTable_size 0) = 0"
    by simp
  have "numEntries (HashTable_size 0) = 0"
    by (simp add: HashTable_size_def)
  with a b run show ?thesis
    by (simp add: grown_table_def)
qed




text \<open>C10: a table of size 0 can be constructed, and then \<open>hash\<close> takes a remainder by
  zero in every call of \<open>Insert\<close> and \<open>Search\<close>; \<open>hash\<close> fails exactly when the vector
  of heads is empty.\<close>

theorem capacity_zero_divides_by_zero:
  "nodes (HashTable_size 0) = [] \<and> tableSize (HashTable_size 0) = 0 \<and>
   hash (HashTable_size 0) cid = Inl DivisionByZero \<and>
   Insert fuel c (HashTable_size 0) = Inl DivisionByZero \<and>
   Search cid (HashTable_size 0) = Inl DivisionByZero \<and>
   (hash t cid = Inl DivisionByZero) = (nodes t = []) \<and>
   isl (hash t cid) = (nodes t = [])"
proof -
  have n: "nodes (HashTable_size 0) = []"
    by (simp add: HashTable_size_def)
  then have "Search cid (HashTable_size 0) = Inl DivisionByZero"
    by (simp add: Search_def hash_def)
  with n Insert_empty_vector [OF n] show ?thesis
    by (simp add: hash_def HashTable_size_def)
qed

end
